theory Spec2Isabelle
  imports Main
begin

section \<open>The ZTP data object of app.py\<close>

text \<open>
  The web application keeps one JSON document (\<^verbatim>\<open>data.json\<close>), validates it on every
  call and converts it to and from a semicolon separated table. The theory embeds
  \<^verbatim>\<open>validate\<close>, the handlers \<^verbatim>\<open>get_data\<close>, \<^verbatim>\<open>post_data\<close> (POST /data),
  \<^verbatim>\<open>get_csv\<close> and \<^verbatim>\<open>post_data\<close> (POST /csv) of \<^verbatim>\<open>src/app.py\<close>.

  Strings are lists of characters read as code points below 256. A parsed JSON value is
  what \<^verbatim>\<open>json.load(..., object_pairs_hook=OrderedDict)\<close> returns: an object is an
  \<^verbatim>\<open>OrderedDict\<close>, here the list of its items in insertion order; an array is a Python
  list. Numbers carry integers only: the code never looks inside a number.
\<close>

subsection \<open>Parsed JSON values and ordered dictionaries\<close>

datatype json =
    JNull
  | JBool bool
  | JNum int
  | JStr string
  | JArr "json list"
  | JObj "(string \<times> json) list"

text \<open>\<^verbatim>\<open>isinstance(v, OrderedDict)\<close>\<close>

fun is_OrderedDict :: "json \<Rightarrow> bool" where
  "is_OrderedDict (JObj d) = True"
| "is_OrderedDict v = False"

text \<open>\<^verbatim>\<open>k in d\<close>, \<^verbatim>\<open>d[k]\<close> (as an option: the code reads only keys it has tested) and
  \<^verbatim>\<open>d[k] = v\<close>: an existing key keeps its place, a new key goes to the end.\<close>

definition od_has :: "(string \<times> 'v) list \<Rightarrow> string \<Rightarrow> bool" where
  "od_has d k = (k \<in> set (map fst d))"

definition od_get :: "(string \<times> 'v) list \<Rightarrow> string \<Rightarrow> 'v option" where
  "od_get d k = map_of d k"

fun od_set :: "(string \<times> 'v) list \<Rightarrow> string \<Rightarrow> 'v \<Rightarrow> (string \<times> 'v) list" where
  "od_set [] k v = [(k, v)]"
| "od_set ((k', v') # d) k v = (if k' = k then (k, v) # d else (k', v') # od_set d k v)"

subsection \<open>validate\<close>

text \<open>The \<^verbatim>\<open>ValueError\<close>s of \<^verbatim>\<open>validate\<close>, named as in the error taxonomy, and their
  message texts in the source.\<close>

datatype invalid =
    ExpectingArrayOfObjects
  | InvalidStackShape
  | InvalidSubstShape
  | EmptyObjectNotAllowed
  | EmptyKeyNotAllowed
  | TooManyDefaults

fun reason :: "invalid \<Rightarrow> string" where
  "reason ExpectingArrayOfObjects = ''Expecting JSON array of objects''"
| "reason InvalidStackShape = ''Stack must be JSON object''"
| "reason InvalidSubstShape = ''Subst must be JSON object''"
| "reason EmptyObjectNotAllowed = ''Empty JSON object not allowed''"
| "reason EmptyKeyNotAllowed = ''Empty JSON keys not allowed''"
| "reason TooManyDefaults = ''Maximum of one object without stack key is allowed''"

text \<open>\<^verbatim>\<open>str.isspace\<close>: the string is not empty and all its characters are whitespace. Below
  256 the whitespace code points are 9 to 13, 28 to 32, 133 and 160.\<close>

definition is_space_char :: "char \<Rightarrow> bool" where
  "is_space_char c =
     (let n = (of_char c :: nat)
      in (9 \<le> n \<and> n \<le> 13) \<or> (28 \<le> n \<and> n \<le> 32) \<or> n = 133 \<or> n = 160)"

definition isspace :: "string \<Rightarrow> bool" where
  "isspace k = (k \<noteq> [] \<and> list_all is_space_char k)"

text \<open>\<^verbatim>\<open>not k or k.isspace()\<close>\<close>

definition empty_key :: "string \<Rightarrow> bool" where
  "empty_key k = (k = [] \<or> isspace k)"

text \<open>\<^verbatim>\<open>k in my and not isinstance(my[k], OrderedDict)\<close>\<close>

definition not_object_at :: "(string \<times> json) list \<Rightarrow> string \<Rightarrow> bool" where
  "not_object_at my k =
     (od_has my k \<and> (case od_get my k of Some v \<Rightarrow> \<not> is_OrderedDict v | None \<Rightarrow> False))"

text \<open>\<^verbatim>\<open>len(v)\<close> of a dictionary value, for
  \<^verbatim>\<open>num_obj = [len(v) for v in my.values() if isinstance(v, OrderedDict)]\<close>.\<close>

fun num_obj :: "(string \<times> json) list \<Rightarrow> nat list" where
  "num_obj [] = []"
| "num_obj ((k, JObj d) # my) = length d # num_obj my"
| "num_obj ((k, v) # my) = num_obj my"

text \<open>The body of the loop \<^verbatim>\<open>for my in data\<close>, up to the count of entries without a
  \<^verbatim>\<open>stack\<close> key: the first check that fails raises.\<close>

fun check_entry :: "json \<Rightarrow> invalid option" where
  "check_entry (JObj my) =
     (if not_object_at my ''stack'' then Some InvalidStackShape
      else if not_object_at my ''subst'' then Some InvalidSubstShape
      else if 0 \<in> set (num_obj my) then Some EmptyObjectNotAllowed
      else if length (filter empty_key (map fst my)) \<noteq> 0 then Some EmptyKeyNotAllowed
      else None)"
| "check_entry v = Some ExpectingArrayOfObjects"

text \<open>\<^verbatim>\<open>not 'stack' in my\<close>, read after the entry passed the checks.\<close>

fun lacks_stack :: "json \<Rightarrow> bool" where
  "lacks_stack (JObj my) = (\<not> od_has my ''stack'')"
| "lacks_stack v = False"

text \<open>The loop, with the counter \<^verbatim>\<open>num_defaults\<close> as an argument.\<close>

fun validate_loop :: "json list \<Rightarrow> nat \<Rightarrow> invalid + nat" where
  "validate_loop [] num_defaults = Inr num_defaults"
| "validate_loop (my # rest) num_defaults =
     (case check_entry my of
        Some e \<Rightarrow> Inl e
      | None \<Rightarrow> validate_loop rest (if lacks_stack my then num_defaults + 1 else num_defaults))"

fun validate :: "json \<Rightarrow> invalid + unit" where
  "validate (JArr data) =
     (case validate_loop data 0 of
        Inl e \<Rightarrow> Inl e
      | Inr num_defaults \<Rightarrow> if num_defaults > 1 then Inl TooManyDefaults else Inr ())"
| "validate v = Inl ExpectingArrayOfObjects"

subsection \<open>The document on disk and the outcome of a handler\<close>

text \<open>
  A text is taken as \<^verbatim>\<open>json.load\<close> and \<^verbatim>\<open>json.loads\<close> read it: they raise a
  \<^verbatim>\<open>ValueError\<close> with a message, or a \<^verbatim>\<open>RecursionError\<close> when the text nests deeper
  than the interpreter allows, or return the parsed value. \<^verbatim>\<open>json.dump\<close> writes a text
  that reads back as the value dumped.
\<close>

datatype jtext = NotJson string | TooDeep | Json json

text \<open>
  The file \<^verbatim>\<open>data.json\<close>: its content when it exists, the message of the \<^verbatim>\<open>IOError\<close>
  that opening it for reading raises (if it does), and the same for opening it for writing.
  A write that fails after the file was opened is not modelled.
\<close>

record store =
  data_json :: "jtext option"
  read_error :: "string option"
  write_error :: "string option"

text \<open>The exceptions the handlers can meet.\<close>

datatype exn =
    ValueError string
  | IOError string
  | AttributeError
  | StopIteration
  | RecursionError
  | CsvError

text \<open>
  A handler returns a value, or calls \<^verbatim>\<open>error(msg)\<close>, which raises the
  \<^verbatim>\<open>HTTPResponse\<close> with status 500 and the message as its body, or lets an exception
  leave it.
\<close>

datatype 'a outcome =
    Returned 'a
  | Error500 string
  | Uncaught exn

text \<open>\<^verbatim>\<open>str(e)\<close> of a caught exception, the message handed to \<^verbatim>\<open>error\<close>.\<close>

fun str_exn :: "exn \<Rightarrow> string" where
  "str_exn (ValueError m) = m"
| "str_exn (IOError m) = m"
| "str_exn e = []"

text \<open>
  \<^verbatim>\<open>except (ValueError, IOError) as e: error(e)\<close>: these two are caught and handed to
  \<^verbatim>\<open>error\<close>, any other exception leaves the handler.
\<close>

fun caught :: "exn \<Rightarrow> bool" where
  "caught (ValueError m) = True"
| "caught (IOError m) = True"
| "caught e = False"

definition except_error :: "exn \<Rightarrow> 'a outcome" where
  "except_error e = (if caught e then Error500 (str_exn e) else Uncaught e)"

text \<open>\<^verbatim>\<open>json.load\<close> and \<^verbatim>\<open>json.loads\<close> on a text.\<close>

fun json_load :: "jtext \<Rightarrow> exn + json" where
  "json_load (NotJson m) = Inl (ValueError m)"
| "json_load TooDeep = Inl RecursionError"
| "json_load (Json data) = Inr data"

text \<open>\<^verbatim>\<open>str\<close> of the \<^verbatim>\<open>IOError\<close> that opening a missing \<^verbatim>\<open>data.json\<close> raises.\<close>

definition enoent :: string where
  "enoent = ''[Errno 2] No such file or directory: '' @ [CHR 0x27] @ ''data.json'' @ [CHR 0x27]"

text \<open>\<^verbatim>\<open>open('data.json')\<close> followed by \<^verbatim>\<open>json.load\<close>.\<close>

definition open_load :: "store \<Rightarrow> exn + json" where
  "open_load st =
     (case data_json st of
        None \<Rightarrow> Inl (IOError enoent)
      | Some t \<Rightarrow>
          (case read_error st of
             Some m \<Rightarrow> Inl (IOError m)
           | None \<Rightarrow> json_load t))"

text \<open>\<^verbatim>\<open>with open('data.json', 'w') as outfile: json.dump(data, outfile, indent=4)\<close>\<close>

definition open_dump :: "json \<Rightarrow> store \<Rightarrow> exn + store" where
  "open_dump data st =
     (case write_error st of
        Some m \<Rightarrow> Inl (IOError m)
      | None \<Rightarrow> Inr (st\<lparr>data_json := Some (Json data)\<rparr>))"

text \<open>\<^verbatim>\<open>validate(data)\<close> as a statement: it raises the \<^verbatim>\<open>ValueError\<close> or goes on.\<close>

definition validate_raise :: "json \<Rightarrow> exn + unit" where
  "validate_raise data =
     (case validate data of Inl e \<Rightarrow> Inl (ValueError (reason e)) | Inr u \<Rightarrow> Inr u)"

text \<open>\<^verbatim>\<open>get_data\<close> (GET /data). The value returned stands for its \<^verbatim>\<open>json.dumps\<close>.\<close>

definition get_data :: "store \<Rightarrow> json outcome" where
  "get_data st =
     (if data_json st \<noteq> None then
        (case open_load st of
           Inl e \<Rightarrow> except_error e
         | Inr data \<Rightarrow>
             (case validate_raise data of
                Inl e \<Rightarrow> except_error e
              | Inr u \<Rightarrow> Returned data))
      else Returned (JArr [JObj []]))"

text \<open>
  The request as bottle holds it: the value of \<^verbatim>\<open>CONTENT_TYPE\<close> in the WSGI environment
  (empty when the header is absent), the number of bytes of the body that bottle has read
  and that body as \<^verbatim>\<open>json.loads\<close> reads it.
\<close>

record request =
  content_type_header :: string
  body_length :: nat
  body :: jtext

text \<open>
  \<^verbatim>\<open>str.lower\<close> on code points below 256: the capital letters are 65 to 90, 192 to 214
  and 216 to 222, and the small letter is 32 above the capital one.
\<close>

definition lower_char :: "char \<Rightarrow> char" where
  "lower_char c =
     (let n = (of_char c :: nat)
      in if (65 \<le> n \<and> n \<le> 90) \<or> (192 \<le> n \<and> n \<le> 214) \<or> (216 \<le> n \<and> n \<le> 222)
         then (case c of Char b0 b1 b2 b3 b4 b5 b6 b7 \<Rightarrow> Char b0 b1 b2 b3 b4 True b6 b7)
         else c)"

definition lower :: "string \<Rightarrow> string" where
  "lower s = map lower_char s"

text \<open>\<^verbatim>\<open>bottle.request.content_type\<close>: bottle returns the header in lower case.\<close>

definition content_type :: "request \<Rightarrow> string" where
  "content_type req = lower (content_type_header req)"

text \<open>
  \<^verbatim>\<open>bottle.request.body.getvalue()\<close>: bottle keeps a body of more than
  \<^verbatim>\<open>MEMFILE_MAX\<close> bytes in a temporary file, which has no \<^verbatim>\<open>getvalue\<close>.
\<close>

definition memfile_max :: nat where
  "memfile_max = 102400"

definition getvalue :: "request \<Rightarrow> exn + jtext" where
  "getvalue req = (if memfile_max < body_length req then Inl AttributeError else Inr (body req))"

text \<open>The first \<^verbatim>\<open>post_data\<close> (POST /data). All of its work is inside \<^verbatim>\<open>try\<close>.\<close>

definition post_data :: "request \<Rightarrow> store \<Rightarrow> unit outcome \<times> store" where
  "post_data req st =
     (if content_type req = ''application/json'' then
        (case getvalue req of
           Inl e \<Rightarrow> (except_error e, st)
         | Inr t \<Rightarrow>
             (case json_load t of
                Inl e \<Rightarrow> (except_error e, st)
              | Inr data \<Rightarrow>
                  (case validate_raise data of
                     Inl e \<Rightarrow> (except_error e, st)
                   | Inr u \<Rightarrow>
                       (case open_dump data st of
                          Inl e \<Rightarrow> (except_error e, st)
                        | Inr st' \<Rightarrow> (Returned (), st')))))
      else (Returned (), st))"

subsection \<open>Export: from the collection to the table\<close>

text \<open>
  The table is taken at the level of fields: a header row and one row of fields for each
  entry, as \<^verbatim>\<open>csv.DictWriter\<close> receives them and \<^verbatim>\<open>csv.reader\<close> yields them. Quoting
  and line ends belong to the \<^verbatim>\<open>csv\<close> module.
\<close>

text \<open>\<^verbatim>\<open>for kk in dct[k].keys(): flat[str(k) + '/' + str(kk)] = dct[k][kk]\<close>\<close>

fun flatten_nested :: "string \<Rightarrow> (string \<times> json) list \<Rightarrow> (string \<times> json) list \<Rightarrow> (string \<times> json) list" where
  "flatten_nested k [] flat = flat"
| "flatten_nested k ((kk, v) # sub) flat = flatten_nested k sub (od_set flat (k @ ''/'' @ kk) v)"

text \<open>\<^verbatim>\<open>for k in dct.keys()\<close>\<close>

fun flatten_items :: "(string \<times> json) list \<Rightarrow> (string \<times> json) list \<Rightarrow> (string \<times> json) list" where
  "flatten_items [] flat = flat"
| "flatten_items ((k, JObj sub) # dct) flat = flatten_items dct (flatten_nested k sub flat)"
| "flatten_items ((k, v) # dct) flat = flatten_items dct (od_set flat k v)"

text \<open>One entry of \<^verbatim>\<open>flat_data\<close>. After \<^verbatim>\<open>validate\<close> every entry is an object.\<close>

fun flatten :: "json \<Rightarrow> (string \<times> json) list" where
  "flatten (JObj dct) = flatten_items dct []"
| "flatten v = []"

text \<open>\<^verbatim>\<open>list(OrderedDict.fromkeys(columns).keys())\<close>\<close>

definition fromkeys :: "string list \<Rightarrow> string list" where
  "fromkeys ks = map fst (foldl (\<lambda>d k. od_set d k ()) [] ks)"

text \<open>
  A field as the writer writes it: \<^verbatim>\<open>None\<close> as the empty string, a string as it is,
  anything else through \<^verbatim>\<open>str\<close>. \<^verbatim>\<open>str\<close> of a boolean is \<^verbatim>\<open>True\<close> or \<^verbatim>\<open>False\<close>;
  \<^verbatim>\<open>str\<close> of a number, a list or a dictionary is the parameter \<open>py_str\<close>.
\<close>

fun csv_field :: "(json \<Rightarrow> string) \<Rightarrow> json \<Rightarrow> string" where
  "csv_field py_str JNull = []"
| "csv_field py_str (JStr s) = s"
| "csv_field py_str (JBool b) = (if b then ''True'' else ''False'')"
| "csv_field py_str v = py_str v"

text \<open>\<^verbatim>\<open>[rowdict.get(key, '') for key in fieldnames]\<close>, each field written.\<close>

definition csv_row :: "(json \<Rightarrow> string) \<Rightarrow> string list \<Rightarrow> (string \<times> json) list \<Rightarrow> string list" where
  "csv_row py_str columns flat =
     map (\<lambda>c. case od_get flat c of None \<Rightarrow> [] | Some v \<Rightarrow> csv_field py_str v) columns"

text \<open>The header row and the rows that \<^verbatim>\<open>get_csv\<close> writes for validated data.\<close>

fun csv_table :: "(json \<Rightarrow> string) \<Rightarrow> json \<Rightarrow> string list \<times> string list list" where
  "csv_table py_str (JArr data) =
     (let flat_data = map flatten data;
          columns = fromkeys (concat (map (map fst) flat_data))
      in (columns, map (csv_row py_str columns) flat_data))"
| "csv_table py_str v = ([], [])"

text \<open>\<^verbatim>\<open>get_csv\<close> (GET /csv): no exception is caught.\<close>

definition get_csv :: "(json \<Rightarrow> string) \<Rightarrow> store \<Rightarrow> (string list \<times> string list list) outcome" where
  "get_csv py_str st =
     (case open_load st of
        Inl e \<Rightarrow> Uncaught e
      | Inr data \<Rightarrow>
          (case validate_raise data of
             Inl e \<Rightarrow> Uncaught e
           | Inr u \<Rightarrow> Returned (csv_table py_str data)))"

subsection \<open>Import: from the table to the collection\<close>

text \<open>\<^verbatim>\<open>k.split(sep)\<close> for a separator of one character.\<close>

fun split_sep :: "char \<Rightarrow> string \<Rightarrow> string list" where
  "split_sep c [] = [[]]"
| "split_sep c (x # xs) =
     (if x = c then [] # split_sep c xs
      else (case split_sep c xs of p # ps \<Rightarrow> (x # p) # ps | [] \<Rightarrow> [[x]]))"

text \<open>\<^verbatim>\<open>OrderedDict(zip(headers, row))\<close>\<close>

definition od_of_pairs :: "(string \<times> 'v) list \<Rightarrow> (string \<times> 'v) list" where
  "od_of_pairs ps = foldl (\<lambda>d (k, v). od_set d k v) [] ps"

text \<open>
  The body of \<^verbatim>\<open>for k in dct.keys()\<close>, with \<open>v\<close> for \<^verbatim>\<open>dct[k]\<close>. Calling
  \<^verbatim>\<open>update\<close> on a string or on \<^verbatim>\<open>True\<close> raises \<^verbatim>\<open>AttributeError\<close>.
\<close>

definition cubic_step :: "string \<Rightarrow> string \<Rightarrow> (string \<times> json) list \<Rightarrow> exn + (string \<times> json) list" where
  "cubic_step k v cubic =
     (let kk = split_sep CHR ''/'' k in
      if v \<noteq> [] \<and> length kk = 2 then
        (case od_get cubic (kk ! 0) of
           Some (JObj sub) \<Rightarrow>
             Inr (od_set cubic (kk ! 0) (JObj (od_set sub (kk ! 1) (JStr v))))
         | Some other \<Rightarrow> Inl AttributeError
         | None \<Rightarrow> Inr (od_set cubic (kk ! 0) (JObj [(kk ! 1, JStr v)])))
      else if v = ''True'' then Inr (od_set cubic k (JBool True))
      else if v \<noteq> [] then Inr (od_set cubic k (JStr v))
      else Inr cubic)"

fun cubic_loop :: "(string \<times> string) list \<Rightarrow> (string \<times> json) list \<Rightarrow> exn + (string \<times> json) list" where
  "cubic_loop [] cubic = Inr cubic"
| "cubic_loop ((k, v) # dct) cubic =
     (case cubic_step k v cubic of Inl e \<Rightarrow> Inl e | Inr cubic' \<Rightarrow> cubic_loop dct cubic')"

text \<open>
  The reader yields a row of the upload, or raises \<^verbatim>\<open>csv.Error\<close> when one of its fields
  is longer than the field limit of the \<^verbatim>\<open>csv\<close> module.
\<close>

definition field_limit :: nat where
  "field_limit = 131072"

definition read_row :: "string list \<Rightarrow> exn + string list" where
  "read_row row =
     (if list_ex (\<lambda>field. field_limit < length field) row then Inl CsvError else Inr row)"

text \<open>\<^verbatim>\<open>for row in reader\<close>: the list \<^verbatim>\<open>data\<close>, from the rows of the upload after the
  header row.\<close>

fun unflatten :: "string list \<Rightarrow> string list list \<Rightarrow> exn + json list" where
  "unflatten headers [] = Inr []"
| "unflatten headers (line # lines) =
     (case read_row line of
        Inl e \<Rightarrow> Inl e
      | Inr row \<Rightarrow>
          (case cubic_loop (od_of_pairs (zip headers row)) [] of
             Inl e \<Rightarrow> Inl e
           | Inr cubic \<Rightarrow>
               (case unflatten headers lines of
                  Inl e \<Rightarrow> Inl e
                | Inr data \<Rightarrow> Inr (JObj cubic # data))))"

text \<open>
  Lines 183 to 202: \<^verbatim>\<open>headers = next(reader)\<close>, which raises \<^verbatim>\<open>StopIteration\<close> on an
  upload without rows, and the loop over the other rows.
\<close>

fun import_rows :: "string list list \<Rightarrow> exn + json list" where
  "import_rows [] = Inl StopIteration"
| "import_rows (line # lines) =
     (case read_row line of
        Inl e \<Rightarrow> Inl e
      | Inr headers \<Rightarrow> unflatten headers lines)"

text \<open>
  The second \<^verbatim>\<open>post_data\<close> (POST /csv). The upload is the rows of fields of the uploaded
  text, or nothing when the form has no \<^verbatim>\<open>upload\<close> field, where \<^verbatim>\<open>upload.file\<close>
  raises \<^verbatim>\<open>AttributeError\<close>. Only the last block is inside \<^verbatim>\<open>try\<close>. An upload that
  is not UTF-8 is not modelled.
\<close>

definition post_data_csv :: "string list list option \<Rightarrow> store \<Rightarrow> unit outcome \<times> store" where
  "post_data_csv upload st =
     (case upload of
        None \<Rightarrow> (Uncaught AttributeError, st)
      | Some lines \<Rightarrow>
          (case import_rows lines of
             Inl e \<Rightarrow> (Uncaught e, st)
           | Inr data \<Rightarrow>
               (case validate_raise (JArr data) of
                  Inl e \<Rightarrow> (except_error e, st)
                | Inr u \<Rightarrow>
                    (case open_dump (JArr data) st of
                       Inl e \<Rightarrow> (except_error e, st)
                     | Inr st' \<Rightarrow> (Returned (), st')))))"

subsection \<open>Collections that the table keeps\<close>

text \<open>
  The items of an entry that come back from the table as they went in. A scalar is the
  boolean true or a string that is neither empty nor \<^verbatim>\<open>True\<close>, under a key that does
  not hold exactly one \<^verbatim>\<open>/\<close>. A nested dictionary is not empty, its key and its own keys
  hold no \<^verbatim>\<open>/\<close>, and its values are strings that are not empty. The keys of a
  dictionary are distinct.
\<close>

fun nested_value_ok :: "json \<Rightarrow> bool" where
  "nested_value_ok (JStr s) = (s \<noteq> [])"
| "nested_value_ok v = False"

fun item_ok :: "string \<Rightarrow> json \<Rightarrow> bool" where
  "item_ok k (JBool b) = (b \<and> count_list k CHR ''/'' \<noteq> 1)"
| "item_ok k (JStr s) = (s \<noteq> [] \<and> s \<noteq> ''True'' \<and> count_list k CHR ''/'' \<noteq> 1)"
| "item_ok k (JObj sub) =
     (CHR ''/'' \<notin> set k \<and> sub \<noteq> [] \<and> distinct (map fst sub) \<and>
      list_all (\<lambda>(kk, v). CHR ''/'' \<notin> set kk \<and> nested_value_ok v) sub)"
| "item_ok k v = False"

fun lossless_entry :: "json \<Rightarrow> bool" where
  "lossless_entry (JObj dct) = (distinct (map fst dct) \<and> list_all (\<lambda>(k, v). item_ok k v) dct)"
| "lossless_entry v = False"

text \<open>The top-level key under which the import puts the cell of a column.\<close>

definition top_key :: "string \<Rightarrow> string" where
  "top_key c = (let kk = split_sep CHR ''/'' c in if length kk = 2 then kk ! 0 else c)"

text \<open>The columns of a nested dictionary list its keys in their own order.\<close>

fun fields_in_order :: "string list \<Rightarrow> string \<times> json \<Rightarrow> bool" where
  "fields_in_order columns (k, JObj sub) =
     (filter (\<lambda>c. c \<in> set (map (\<lambda>kk. k @ ''/'' @ kk) (map fst sub))) columns =
      map (\<lambda>kk. k @ ''/'' @ kk) (map fst sub))"
| "fields_in_order columns (k, v) = True"

text \<open>
  The order of the columns agrees with the entry: the top-level keys of the entry's own
  columns, each taken where it is first seen, are the keys of the entry in their order,
  and the columns of every nested dictionary list its keys in their order.
\<close>

fun in_column_order :: "string list \<Rightarrow> json \<Rightarrow> bool" where
  "in_column_order columns (JObj dct) =
     (fromkeys (map top_key (filter (\<lambda>c. c \<in> set (map fst (flatten (JObj dct)))) columns)) =
        map fst dct \<and>
      list_all (fields_in_order columns) dct)"
| "in_column_order columns v = False"

text \<open>No field of the row is longer than the field limit.\<close>

definition within_limit :: "string list \<Rightarrow> bool" where
  "within_limit row = list_all (\<lambda>field. length field \<le> field_limit) row"

text \<open>The items that \<^verbatim>\<open>flat\<close> collects for an entry, one after the other.\<close>

fun flat_pairs :: "(string \<times> json) list \<Rightarrow> (string \<times> json) list" where
  "flat_pairs [] = []"
| "flat_pairs ((k, JObj sub) # dct) = map (\<lambda>(kk, v). (k @ ''/'' @ kk, v)) sub @ flat_pairs dct"
| "flat_pairs ((k, v) # dct) = (k, v) # flat_pairs dct"

text \<open>
  What the loop over the columns \<open>ks\<close> of the entry \<open>dct\<close> has built, with \<open>cell\<close>
  giving the field of a column: the top-level keys as first seen, a scalar with its value
  and a nested dictionary with the fields seen so far.
\<close>

definition built_value :: "(string \<Rightarrow> string) \<Rightarrow> (string \<times> json) list \<Rightarrow> string list \<Rightarrow> string \<Rightarrow> json" where
  "built_value cell dct ks g =
     (case od_get dct g of
        Some (JObj sub) \<Rightarrow>
          JObj (map (\<lambda>c. (drop (Suc (length g)) c, JStr (cell c))) (filter (\<lambda>c. top_key c = g) ks))
      | Some v \<Rightarrow> v
      | None \<Rightarrow> JNull)"

definition built :: "(string \<Rightarrow> string) \<Rightarrow> (string \<times> json) list \<Rightarrow> string list \<Rightarrow> (string \<times> json) list" where
  "built cell dct ks = map (\<lambda>g. (g, built_value cell dct ks g)) (fromkeys (map top_key ks))"

text \<open>A value for \<open>py_str\<close> in the examples; none of them holds a number, a list or a
  dictionary in a field.\<close>

definition example_str :: "json \<Rightarrow> string" where
  "example_str v = []"

section \<open>Properties\<close>

subsection \<open>Ordered dictionaries\<close>

lemma keys_od_set:
  "map fst (od_set d k v) = (if k \<in> set (map fst d) then map fst d else map fst d @ [k])"
  by (induction d) (auto split: if_splits)

lemma od_has_set [simp]: "od_has (od_set d k v) k' = (k' = k \<or> od_has d k')"
  by (auto simp: od_has_def keys_od_set simp del: set_map)

lemma od_get_set [simp]: "od_get (od_set d k v) k' = (if k' = k then Some v else od_get d k')"
  by (induction d) (auto simp: od_get_def split: if_splits)

lemma set_od_set: "x \<in> set (od_set d k v) \<Longrightarrow> x = (k, v) \<or> x \<in> set d"
  by (induction d) (auto split: if_splits)

lemma values_od_set: "snd ` set (od_set d k v) \<subseteq> insert v (snd ` set d)"
  using set_od_set by fastforce

subsection \<open>The loop of validate\<close>

lemma zero_in_num_obj: "0 \<in> set (num_obj my) \<longleftrightarrow> JObj [] \<in> snd ` set my"
  by (induction my rule: num_obj.induct) auto

lemma validate_loop_pass:
  "\<forall>x\<in>set xs. check_entry x = None \<Longrightarrow>
   validate_loop xs n = Inr (n + length (filter lacks_stack xs))"
  by (induction xs arbitrary: n) auto

lemma validate_loop_first_failure:
  "\<forall>x\<in>set pre. check_entry x = None \<Longrightarrow> check_entry my = Some e \<Longrightarrow>
   validate_loop (pre @ my # post) n = Inl e"
  by (induction pre arbitrary: n) auto

lemma validate_loop_Inl:
  "validate_loop xs n = Inl e \<Longrightarrow>
   \<exists>pre my post. xs = pre @ my # post \<and> (\<forall>x\<in>set pre. check_entry x = None) \<and>
     check_entry my = Some e"
proof (induction xs arbitrary: n)
  case Nil
  then show ?case by simp
next
  case (Cons x xs)
  show ?case
  proof (cases "check_entry x")
    case None
    with Cons.prems have "validate_loop xs (if lacks_stack x then n + 1 else n) = Inl e"
      by simp
    from Cons.IH [OF this] obtain pre my post where
      "xs = pre @ my # post" "\<forall>x\<in>set pre. check_entry x = None" "check_entry my = Some e"
      by blast
    with None have "x # xs = (x # pre) @ my # post \<and>
        (\<forall>y\<in>set (x # pre). check_entry y = None) \<and> check_entry my = Some e"
      by simp
    then show ?thesis by blast
  next
    case (Some e')
    with Cons.prems have "e' = e" by simp
    with Some have "x # xs = [] @ x # xs \<and> (\<forall>y\<in>set []. check_entry y = None) \<and>
        check_entry x = Some e"
      by simp
    then show ?thesis by blast
  qed
qed

lemma validate_loop_Inr:
  "validate_loop xs n = Inr m \<Longrightarrow> (\<forall>x\<in>set xs. check_entry x = None)"
  by (induction xs arbitrary: n) (auto split: option.splits)

lemma validate_accepts_iff:
  "validate (JArr data) = Inr () \<longleftrightarrow>
   (\<forall>x\<in>set data. check_entry x = None) \<and> length (filter lacks_stack data) \<le> 1"
proof
  assume a: "validate (JArr data) = Inr ()"
  then obtain m where m: "validate_loop data 0 = Inr m"
    by (cases "validate_loop data 0") auto
  then have p: "\<forall>x\<in>set data. check_entry x = None" by (rule validate_loop_Inr)
  from validate_loop_pass [OF p, of 0] m a
  show "(\<forall>x\<in>set data. check_entry x = None) \<and> length (filter lacks_stack data) \<le> 1"
    using p by (auto split: if_splits)
next
  assume "(\<forall>x\<in>set data. check_entry x = None) \<and> length (filter lacks_stack data) \<le> 1"
  then show "validate (JArr data) = Inr ()"
    by (simp add: validate_loop_pass)
qed

lemma check_entry_EmptyKey:
  "check_entry x = Some EmptyKeyNotAllowed \<longleftrightarrow>
   (\<exists>my. x = JObj my \<and> \<not> not_object_at my ''stack'' \<and> \<not> not_object_at my ''subst'' \<and>
      JObj [] \<notin> snd ` set my \<and> (\<exists>k\<in>set (map fst my). empty_key k))"
  by (cases x) (auto simp: zero_in_num_obj filter_empty_conv)

lemmas eval_validate =
  not_object_at_def od_has_def od_get_def empty_key_def isspace_def is_space_char_def

subsection \<open>Empty keys\<close>

text \<open>
  Claim C2 says that \<^verbatim>\<open>validate\<close> fails with \<open>EmptyKeyNotAllowed\<close> whenever any key of
  an entry, top-level or inside a nested object, is empty or whitespace. The code tests
  the top-level keys only: an entry whose nested object has an empty key is accepted.
\<close>

theorem nested_empty_key_accepted:
  "empty_key [] \<and>
   validate (JArr [JObj [(''stack'', JObj [([], JStr ''x'')])]]) = Inr ()"
  by (simp add: eval_validate)

text \<open>
  Claim C2 as the code has it: \<^verbatim>\<open>validate\<close> fails with \<open>EmptyKeyNotAllowed\<close> exactly
  when the first entry that fails a check is an object whose \<^verbatim>\<open>stack\<close> and
  \<^verbatim>\<open>subst\<close> values (if present) are objects, none of whose values is the empty object,
  and one of whose top-level keys is empty or whitespace. Keys of nested objects play no
  part.
\<close>

theorem empty_top_level_key_rejected:
  "validate data = Inl EmptyKeyNotAllowed \<longleftrightarrow>
   (\<exists>pre my post. data = JArr (pre @ JObj my # post) \<and>
      (\<forall>x\<in>set pre. check_entry x = None) \<and>
      \<not> not_object_at my ''stack'' \<and> \<not> not_object_at my ''subst'' \<and>
      JObj [] \<notin> snd ` set my \<and> (\<exists>k\<in>set (map fst my). empty_key k))"
proof
  assume a: "validate data = Inl EmptyKeyNotAllowed"
  then obtain xs where d: "data = JArr xs" by (cases data) auto
  with a have "validate_loop xs 0 = Inl EmptyKeyNotAllowed"
    by (cases "validate_loop xs 0") (auto split: if_splits)
  from validate_loop_Inl [OF this] obtain pre x post where
    x: "xs = pre @ x # post" "\<forall>y\<in>set pre. check_entry y = None"
       "check_entry x = Some EmptyKeyNotAllowed"
    by blast
  from x(3) obtain my where "x = JObj my" "\<not> not_object_at my ''stack''"
      "\<not> not_object_at my ''subst''" "JObj [] \<notin> snd ` set my"
      "\<exists>k\<in>set (map fst my). empty_key k"
    unfolding check_entry_EmptyKey by blast
  with d x(1,2) show "\<exists>pre my post. data = JArr (pre @ JObj my # post) \<and>
      (\<forall>x\<in>set pre. check_entry x = None) \<and>
      \<not> not_object_at my ''stack'' \<and> \<not> not_object_at my ''subst'' \<and>
      JObj [] \<notin> snd ` set my \<and> (\<exists>k\<in>set (map fst my). empty_key k)"
    by blast
next
  assume "\<exists>pre my post. data = JArr (pre @ JObj my # post) \<and>
      (\<forall>x\<in>set pre. check_entry x = None) \<and>
      \<not> not_object_at my ''stack'' \<and> \<not> not_object_at my ''subst'' \<and>
      JObj [] \<notin> snd ` set my \<and> (\<exists>k\<in>set (map fst my). empty_key k)"
  then obtain pre my post where d: "data = JArr (pre @ JObj my # post)"
    and p: "\<forall>x\<in>set pre. check_entry x = None"
    and c: "\<not> not_object_at my ''stack''" "\<not> not_object_at my ''subst''"
      "JObj [] \<notin> snd ` set my" "\<exists>k\<in>set (map fst my). empty_key k"
    by blast
  from c have "check_entry (JObj my) = Some EmptyKeyNotAllowed"
    unfolding check_entry_EmptyKey by blast
  from validate_loop_first_failure [OF p this] d
  show "validate data = Inl EmptyKeyNotAllowed" by simp
qed

theorem empty_top_level_key_rejected_witness:
  "check_entry (JObj [(''stack'', JObj [(''ip'', JStr ''10.0.0.1'')])]) = None \<and>
   empty_key '' '' \<and>
   validate (JArr [JObj [(''stack'', JObj [(''ip'', JStr ''10.0.0.1'')])],
                   JObj [('' '', JStr ''x'')], JNum 5]) = Inl EmptyKeyNotAllowed"
proof -
  let ?e = "JObj [(''stack'', JObj [(''ip'', JStr ''10.0.0.1'')])]"
  let ?my = "[('' '', JStr ''x'')]"
  have e: "check_entry ?e = None" and k: "empty_key '' ''"
    by (simp_all add: eval_validate)
  have "\<exists>pre my post. JArr [?e, JObj ?my, JNum 5] = JArr (pre @ JObj my # post) \<and>
      (\<forall>x\<in>set pre. check_entry x = None) \<and>
      \<not> not_object_at my ''stack'' \<and> \<not> not_object_at my ''subst'' \<and>
      JObj [] \<notin> snd ` set my \<and> (\<exists>k\<in>set (map fst my). empty_key k)"
    apply (rule exI [of _ "[?e]"])
    apply (rule exI [of _ ?my])
    apply (rule exI [of _ "[JNum 5]"])
    apply (simp add: eval_validate)
    done
  then have "validate (JArr [?e, JObj ?my, JNum 5]) = Inl EmptyKeyNotAllowed"
    by (rule iffD2 [OF empty_top_level_key_rejected])
  with e k show ?thesis by simp
qed

subsection \<open>Which failure validate raises\<close>

lemma validate_loop_map_filter:
  "validate_loop xs n =
     (case List.map_filter check_entry xs of
        e # es \<Rightarrow> Inl e
      | [] \<Rightarrow> Inr (n + length (filter lacks_stack xs)))"
  by (induction xs arbitrary: n)
    (auto simp: List.map_filter_simps split: option.splits list.splits)

lemma check_entry_not_object:
  "check_entry x = Some ExpectingArrayOfObjects \<longleftrightarrow> \<not> is_OrderedDict x"
  by (cases x) auto

lemma check_entry_EmptyObject:
  "check_entry x = Some EmptyObjectNotAllowed \<longleftrightarrow>
   (\<exists>my. x = JObj my \<and> \<not> not_object_at my ''stack'' \<and> \<not> not_object_at my ''subst'' \<and>
      JObj [] \<in> snd ` set my)"
  by (cases x) (auto simp: zero_in_num_obj)

text \<open>
  Claim C5 says that when several rules fail, possibly in different entries,
  \<^verbatim>\<open>validate\<close> raises the failure of the earliest rule in the order
  \<open>ExpectingArrayOfObjects\<close>, \<open>EmptyObjectNotAllowed\<close>, \<open>EmptyKeyNotAllowed\<close>,
  \<open>TooManyDefaults\<close>, regardless of the entry. The loop checks entry by entry: an empty
  key in the first entry is raised although the second entry is not an object.
\<close>

theorem later_entry_rule_1_loses:
  "check_entry (JNum 5) = Some ExpectingArrayOfObjects \<and>
   validate (JArr [JObj [([], JStr ''x'')], JNum 5]) = Inl EmptyKeyNotAllowed"
  by (simp add: eval_validate)

text \<open>
  Claim C5 as the code has it: \<^verbatim>\<open>validate\<close> raises the failure of the first entry, in
  the order of the collection, that fails a check, whatever later entries violate;
  \<open>TooManyDefaults\<close> is raised only when every entry passes and more than one lacks
  \<^verbatim>\<open>stack\<close>. Within one entry the precedence is \<open>ExpectingArrayOfObjects\<close>,
  \<open>InvalidStackShape\<close>, \<open>InvalidSubstShape\<close>, \<open>EmptyObjectNotAllowed\<close>,
  \<open>EmptyKeyNotAllowed\<close>.
\<close>

theorem validate_precedence:
  "validate (JArr data) =
     (case List.map_filter check_entry data of
        e # es \<Rightarrow> Inl e
      | [] \<Rightarrow> if 1 < length (filter lacks_stack data) then Inl TooManyDefaults else Inr ())
   \<and> (check_entry x = Some ExpectingArrayOfObjects \<longleftrightarrow> \<not> is_OrderedDict x)
   \<and> (check_entry (JObj my) = Some InvalidStackShape \<longleftrightarrow> not_object_at my ''stack'')
   \<and> (check_entry (JObj my) = Some InvalidSubstShape \<longleftrightarrow>
        \<not> not_object_at my ''stack'' \<and> not_object_at my ''subst'')
   \<and> (check_entry (JObj my) = Some EmptyObjectNotAllowed \<longleftrightarrow>
        \<not> not_object_at my ''stack'' \<and> \<not> not_object_at my ''subst'' \<and>
        JObj [] \<in> snd ` set my)
   \<and> (check_entry (JObj my) = Some EmptyKeyNotAllowed \<longleftrightarrow>
        \<not> not_object_at my ''stack'' \<and> \<not> not_object_at my ''subst'' \<and>
        JObj [] \<notin> snd ` set my \<and> (\<exists>k\<in>set (map fst my). empty_key k))"
proof -
  have 1: "validate (JArr data) =
     (case List.map_filter check_entry data of
        e # es \<Rightarrow> Inl e
      | [] \<Rightarrow> if 1 < length (filter lacks_stack data) then Inl TooManyDefaults else Inr ())"
    by (simp add: validate_loop_map_filter split: list.splits)
  have 2: "check_entry (JObj my) = Some InvalidStackShape \<longleftrightarrow> not_object_at my ''stack''"
    by simp
  have 3: "check_entry (JObj my) = Some InvalidSubstShape \<longleftrightarrow>
        \<not> not_object_at my ''stack'' \<and> not_object_at my ''subst''"
    by simp
  have 4: "check_entry (JObj my) = Some EmptyObjectNotAllowed \<longleftrightarrow>
        \<not> not_object_at my ''stack'' \<and> \<not> not_object_at my ''subst'' \<and>
        JObj [] \<in> snd ` set my"
    using check_entry_EmptyObject [of "JObj my"] by blast
  have 5: "check_entry (JObj my) = Some EmptyKeyNotAllowed \<longleftrightarrow>
        \<not> not_object_at my ''stack'' \<and> \<not> not_object_at my ''subst'' \<and>
        JObj [] \<notin> snd ` set my \<and> (\<exists>k\<in>set (map fst my). empty_key k)"
    using check_entry_EmptyKey [of "JObj my"] by blast
  from 1 2 3 4 5 check_entry_not_object [of x] show ?thesis by blast
qed

theorem validate_precedence_witness:
  "validate (JArr [JObj [(''stack'', JStr ''s''), ([], JObj [])], JNum 5]) =
   Inl InvalidStackShape"
  using validate_precedence [of "[JObj [(''stack'', JStr ''s''), ([], JObj [])], JNum 5]"
      "JNum 5" "[(''stack'', JStr ''s''), ([], JObj [])]"]
  by (simp add: eval_validate List.map_filter_simps)

subsection \<open>Values outside the data model\<close>

lemma check_entry_od_set:
  assumes "check_entry (JObj my) = None" "k \<noteq> ''stack''" "k \<noteq> ''subst''"
    "\<not> empty_key k" "v \<noteq> JObj []"
  shows "check_entry (JObj (od_set my k v)) = None"
proof -
  from assms(1) have a: "\<not> not_object_at my ''stack''" "\<not> not_object_at my ''subst''"
      "JObj [] \<notin> snd ` set my" "\<forall>k\<in>set (map fst my). \<not> empty_key k"
    by (auto simp: zero_in_num_obj filter_empty_conv split: if_splits)
  from a(1,2) assms(2,3) have 1: "\<not> not_object_at (od_set my k v) ''stack''"
      "\<not> not_object_at (od_set my k v) ''subst''"
    by (simp_all add: not_object_at_def)
  from a(3) assms(5) values_od_set [of my k v] have 2: "JObj [] \<notin> snd ` set (od_set my k v)"
    by blast
  from a(4) assms(4) have 3: "\<forall>k'\<in>set (map fst (od_set my k v)). \<not> empty_key k'"
    by (auto simp: keys_od_set)
  from 1 2 3 show ?thesis
    by (auto simp: zero_in_num_obj filter_empty_conv)
qed

lemma count_update_same:
  "i < length xs \<Longrightarrow> P y = P (xs ! i) \<Longrightarrow>
   length (filter P (xs[i := y])) = length (filter P xs)"
proof (induction xs arbitrary: i)
  case Nil
  then show ?case by simp
next
  case (Cons x xs)
  then show ?case by (cases i) auto
qed

text \<open>
  Claim C9: \<^verbatim>\<open>validate\<close> accepts values outside the documented data model. In a
  collection that \<^verbatim>\<open>validate\<close> accepts, setting a key other than \<^verbatim>\<open>stack\<close> and
  \<^verbatim>\<open>subst\<close> (and not empty or whitespace) of any entry to any value but the empty
  object, so to a number, an array or an object nested deeper than one level, whatever
  its inner objects hold, gives a collection that \<^verbatim>\<open>validate\<close> accepts.
\<close>

theorem validate_ignores_value_shape:
  assumes "validate (JArr data) = Inr ()" and "i < length data" and "data ! i = JObj my"
    and "k \<noteq> ''stack''" and "k \<noteq> ''subst''" and "\<not> empty_key k" and "v \<noteq> JObj []"
  shows "validate (JArr (data[i := JObj (od_set my k v)])) = Inr ()"
proof -
  from assms(1) have p: "\<forall>x\<in>set data. check_entry x = None"
    and c: "length (filter lacks_stack data) \<le> 1"
    unfolding validate_accepts_iff by blast+
  from p assms(2,3) have "check_entry (JObj my) = None"
    by (metis nth_mem)
  then have n: "check_entry (JObj (od_set my k v)) = None"
    using assms(4-7) by (rule check_entry_od_set)
  have "set (data[i := JObj (od_set my k v)]) \<subseteq> insert (JObj (od_set my k v)) (set data)"
    by (rule set_update_subset_insert)
  with p n have p': "\<forall>x\<in>set (data[i := JObj (od_set my k v)]). check_entry x = None"
    by auto
  from assms(4) have "lacks_stack (JObj (od_set my k v)) = lacks_stack (data ! i)"
    by (simp add: assms(3))
  from count_update_same [OF assms(2) this] c
  have "length (filter lacks_stack (data[i := JObj (od_set my k v)])) \<le> 1"
    by simp
  with p' show ?thesis unfolding validate_accepts_iff by blast
qed

theorem validate_ignores_value_shape_witness:
  "validate (JArr [JObj []]) = Inr () \<and>
   validate (JArr [JObj [(''a'', JObj [(''b'', JObj [])])]]) = Inr () \<and>
   validate (JArr [JObj [(''a'', JArr [JNum 1, JNull])]]) = Inr ()"
proof -
  have a: "validate (JArr [JObj []]) = Inr ()" by (simp add: eval_validate)
  have k: "\<not> empty_key ''a''" by (simp add: eval_validate)
  from validate_ignores_value_shape [OF a, of 0 "[]" "''a''" "JObj [(''b'', JObj [])]"]
    validate_ignores_value_shape [OF a, of 0 "[]" "''a''" "JArr [JNum 1, JNull]"] k a
  show ?thesis by simp
qed

subsection \<open>The handlers and the stored document\<close>

text \<open>
  Claim C8: when no backing document exists, loading returns the collection
  \<^verbatim>\<open>[{}]\<close>, an array of one empty entry, and does not fail.
\<close>

theorem get_data_missing_document:
  "data_json st = None \<Longrightarrow> get_data st = Returned (JArr [JObj []])"
  by (simp add: get_data_def)

theorem get_data_missing_document_witness:
  "get_data \<lparr>data_json = None, read_error = None, write_error = None\<rparr> =
   Returned (JArr [JObj []])"
  using get_data_missing_document
    [of "\<lparr>data_json = None, read_error = None, write_error = None\<rparr>"]
  by simp

lemmas eval_request =
  post_data_def content_type_def lower_def lower_char_def getvalue_def memfile_max_def
  validate_raise_def except_error_def open_dump_def

text \<open>
  Claim C10 says that a POST of the document whose content type is not exactly
  \<^verbatim>\<open>application/json\<close> is not parsed, not validated and not written. The code compares
  \<^verbatim>\<open>bottle.request.content_type\<close>, which is the header in lower case: a POST with the
  header \<^verbatim>\<open>Application/JSON\<close> replaces the stored document, and with a body that fails
  \<^verbatim>\<open>validate\<close> it is answered with the error.
\<close>

theorem capital_content_type_is_written:
  "''Application/JSON'' \<noteq> ''application/json''
   \<and> post_data \<lparr>content_type_header = ''Application/JSON'', body_length = 2, body = Json (JArr [])\<rparr>
       \<lparr>data_json = Some (Json (JArr [JObj []])), read_error = None, write_error = None\<rparr> =
     (Returned (), \<lparr>data_json = Some (Json (JArr [])), read_error = None, write_error = None\<rparr>)
   \<and> post_data \<lparr>content_type_header = ''Application/JSON'', body_length = 2, body = Json (JObj [])\<rparr>
       \<lparr>data_json = Some (Json (JArr [JObj []])), read_error = None, write_error = None\<rparr> =
     (Error500 ''Expecting JSON array of objects'',
      \<lparr>data_json = Some (Json (JArr [JObj []])), read_error = None, write_error = None\<rparr>)"
  by (simp add: eval_request)

text \<open>
  Claim C10 as the code has it: a POST of the document whose content type, put in lower
  case, is not \<^verbatim>\<open>application/json\<close> is not parsed, not validated and not written:
  whatever the body and its size, the store is unchanged and the handler returns without
  an error.
\<close>

theorem post_data_other_content_type:
  "lower (content_type_header req) \<noteq> ''application/json'' \<Longrightarrow>
   post_data req st = (Returned (), st)"
  by (simp add: post_data_def content_type_def)

theorem post_data_other_content_type_witness:
  "lower ''Application/JSON; charset=utf-8'' \<noteq> ''application/json''
   \<and> post_data \<lparr>content_type_header = ''Application/JSON; charset=utf-8'', body_length = 1,
         body = Json (JNum 5)\<rparr>
       \<lparr>data_json = Some (Json (JArr [JObj []])), read_error = None, write_error = None\<rparr> =
     (Returned (),
      \<lparr>data_json = Some (Json (JArr [JObj []])), read_error = None, write_error = None\<rparr>)"
proof -
  have l: "lower (content_type_header \<lparr>content_type_header = ''Application/JSON; charset=utf-8'',
      body_length = 1, body = Json (JNum 5)\<rparr>) \<noteq> ''application/json''"
    by (simp add: lower_def lower_char_def)
  from post_data_other_content_type [OF l] l show ?thesis by simp
qed

lemmas eval_unflatten =
  od_of_pairs_def cubic_step_def od_get_def read_row_def field_limit_def

text \<open>
  Claim C6: saving is all or nothing. When the body of a POST of the document is a JSON
  text that fails \<^verbatim>\<open>validate\<close>, the store after the call is the store before it and
  loading gives what it gave before, whatever the content type and the size of the
  body; when the body is read at all (the content type in lower case is
  \<^verbatim>\<open>application/json\<close> and the body is no longer than \<^verbatim>\<open>MEMFILE_MAX\<close>), the handler
  ends in \<^verbatim>\<open>error\<close> with the reason of the failure. An import whose rows give a
  collection that fails \<^verbatim>\<open>validate\<close> ends in \<^verbatim>\<open>error\<close> with the reason and leaves
  the store as it was. In both handlers \<^verbatim>\<open>validate\<close> runs before the file is opened
  for writing.
\<close>

theorem rejected_write_leaves_store:
  "(body req = Json data \<and> validate data = Inl e \<longrightarrow>
      snd (post_data req st) = st \<and>
      get_data (snd (post_data req st)) = get_data st \<and>
      (content_type req = ''application/json'' \<and> body_length req \<le> memfile_max \<longrightarrow>
         fst (post_data req st) = Error500 (reason e)))
   \<and> (import_rows lines = Inr entries \<and> validate (JArr entries) = Inl e' \<longrightarrow>
      post_data_csv (Some lines) st = (Error500 (reason e'), st) \<and>
      get_data (snd (post_data_csv (Some lines) st)) = get_data st)"
  by (simp add: post_data_def post_data_csv_def validate_raise_def except_error_def getvalue_def)

theorem rejected_write_leaves_store_witness:
  "post_data \<lparr>content_type_header = ''application/json'', body_length = 2, body = Json (JObj [])\<rparr>
     \<lparr>data_json = Some (Json (JArr [JObj [(''name'', JStr ''default'')]])),
      read_error = None, write_error = None\<rparr> =
   (Error500 ''Expecting JSON array of objects'',
    \<lparr>data_json = Some (Json (JArr [JObj [(''name'', JStr ''default'')]])),
      read_error = None, write_error = None\<rparr>)
   \<and> snd (post_data \<lparr>content_type_header = ''application/json'', body_length = 200000,
         body = Json (JObj [])\<rparr>
     \<lparr>data_json = Some (Json (JArr [JObj [(''name'', JStr ''default'')]])),
      read_error = None, write_error = None\<rparr>) =
    \<lparr>data_json = Some (Json (JArr [JObj [(''name'', JStr ''default'')]])),
      read_error = None, write_error = None\<rparr>
   \<and> post_data_csv (Some [[''name''], [''r1''], [''r2'']])
     \<lparr>data_json = Some (Json (JArr [JObj [(''name'', JStr ''default'')]])),
      read_error = None, write_error = None\<rparr> =
   (Error500 ''Maximum of one object without stack key is allowed'',
    \<lparr>data_json = Some (Json (JArr [JObj [(''name'', JStr ''default'')]])),
      read_error = None, write_error = None\<rparr>)
   \<and> get_data \<lparr>data_json = Some (Json (JArr [JObj [(''name'', JStr ''default'')]])),
      read_error = None, write_error = None\<rparr> =
     Returned (JArr [JObj [(''name'', JStr ''default'')]])"
proof -
  let ?st = "\<lparr>data_json = Some (Json (JArr [JObj [(''name'', JStr ''default'')]])),
      read_error = None, write_error = None\<rparr>"
  let ?req = "\<lparr>content_type_header = ''application/json'', body_length = 2,
      body = Json (JObj [])\<rparr>"
  let ?large = "\<lparr>content_type_header = ''application/json'', body_length = 200000,
      body = Json (JObj [])\<rparr>"
  let ?lines = "[[''name''], [''r1''], [''r2'']]"
  let ?entries = "[JObj [(''name'', JStr ''r1'')], JObj [(''name'', JStr ''r2'')]]"
  have u: "import_rows ?lines = Inr ?entries"
    by (simp add: eval_unflatten)
  have v: "validate (JArr ?entries) = Inl TooManyDefaults"
    by (simp add: eval_validate)
  have v': "validate (JObj []) = Inl ExpectingArrayOfObjects"
    by simp
  have c: "content_type ?req = ''application/json''" "body_length ?req \<le> memfile_max"
    by (simp_all add: content_type_def lower_def lower_char_def memfile_max_def)
  have g: "get_data ?st = Returned (JArr [JObj [(''name'', JStr ''default'')]])"
    by (simp add: get_data_def open_load_def validate_raise_def eval_validate)
  from rejected_write_leaves_store
    [of ?req "JObj []" ExpectingArrayOfObjects ?st ?lines ?entries TooManyDefaults]
    rejected_write_leaves_store
    [of ?large "JObj []" ExpectingArrayOfObjects ?st ?lines ?entries TooManyDefaults]
    u v v' c g
  show ?thesis by (simp add: prod_eq_iff)
qed

text \<open>
  Claim C7 says that the export catches a missing, unreadable, malformed or invalid
  document and turns it into an error message. \<^verbatim>\<open>get_csv\<close> has no \<^verbatim>\<open>try\<close>: each of
  these failures leaves the handler as an exception, where \<^verbatim>\<open>get_data\<close> on the same
  store calls \<^verbatim>\<open>error\<close> with the message.
\<close>

theorem get_csv_lets_failures_escape:
  "get_csv py_str \<lparr>data_json = None, read_error = r, write_error = w\<rparr> =
       Uncaught (IOError enoent)
   \<and> get_csv py_str \<lparr>data_json = Some t, read_error = Some m, write_error = w\<rparr> =
       Uncaught (IOError m)
   \<and> get_csv py_str \<lparr>data_json = Some (NotJson m), read_error = None, write_error = w\<rparr> =
       Uncaught (ValueError m)
   \<and> get_csv py_str \<lparr>data_json = Some (Json (JObj [])), read_error = None, write_error = w\<rparr> =
       Uncaught (ValueError ''Expecting JSON array of objects'')
   \<and> get_data \<lparr>data_json = Some t, read_error = Some m, write_error = w\<rparr> = Error500 m
   \<and> get_data \<lparr>data_json = Some (NotJson m), read_error = None, write_error = w\<rparr> = Error500 m
   \<and> get_data \<lparr>data_json = Some (Json (JObj [])), read_error = None, write_error = w\<rparr> =
       Error500 ''Expecting JSON array of objects''"
  by (simp add: get_csv_def get_data_def open_load_def validate_raise_def except_error_def)

subsection \<open>Splitting a header key\<close>

lemma split_sep_not_Nil [simp]: "split_sep c k \<noteq> []"
  by (induction k) (auto split: list.splits)

lemma length_split_sep: "length (split_sep c k) = Suc (count_list k c)"
  by (induction k) (auto split: list.splits)

lemma split_sep_no_sep: "c \<notin> set k \<Longrightarrow> split_sep c k = [k]"
  by (induction k) auto

lemma split_sep_append: "c \<notin> set a \<Longrightarrow> split_sep c (a @ c # b) = a # split_sep c b"
  by (induction a) auto

lemma split_sep_two: "c \<notin> set a \<Longrightarrow> c \<notin> set b \<Longrightarrow> split_sep c (a @ c # b) = [a, b]"
  by (simp add: split_sep_append split_sep_no_sep)

lemma one_sep_decompose:
  assumes "count_list k c = 1"
  shows "k = takeWhile (\<lambda>x. x \<noteq> c) k @ c # tl (dropWhile (\<lambda>x. x \<noteq> c) k) \<and>
         c \<notin> set (takeWhile (\<lambda>x. x \<noteq> c) k) \<and> c \<notin> set (tl (dropWhile (\<lambda>x. x \<noteq> c) k))"
proof -
  from assms have "count_list k c = Suc 0" by simp
  from count_list_Suc_split_first [OF this] obtain a b where
    k: "k = a @ c # b" and a: "c \<notin> set a" and "count_list b c = 0"
    by blast
  then have b: "c \<notin> set b" by (simp add: count_list_0_iff)
  from a have "takeWhile (\<lambda>x. x \<noteq> c) k = a" "dropWhile (\<lambda>x. x \<noteq> c) k = c # b"
    unfolding k by (auto simp: takeWhile_tail dropWhile_append3)
  with k a b show ?thesis by simp
qed

lemma split_sep_one:
  assumes "count_list k c = 1"
  shows "split_sep c k = [takeWhile (\<lambda>x. x \<noteq> c) k, tl (dropWhile (\<lambda>x. x \<noteq> c) k)]"
proof -
  let ?a = "takeWhile (\<lambda>x. x \<noteq> c) k" and ?b = "tl (dropWhile (\<lambda>x. x \<noteq> c) k)"
  from one_sep_decompose [OF assms] have "k = ?a @ c # ?b" "c \<notin> set ?a" "c \<notin> set ?b"
    by blast+
  from split_sep_two [OF this(2,3)] this(1) show ?thesis by simp
qed

text \<open>
  Claim C4 says that a header key is split on the first \<^verbatim>\<open>/\<close> only and is nested if and
  only if that gives two parts that are not empty and the cell is not blank. The code
  splits at every \<^verbatim>\<open>/\<close> and asks for two parts: a key with two \<^verbatim>\<open>/\<close> stays a top-level
  key, and a key with one \<^verbatim>\<open>/\<close> is nested also when a part is empty.
\<close>

theorem split_at_every_slash:
  "cubic_step ''a/b/c'' ''x'' [] = Inr [(''a/b/c'', JStr ''x'')] \<and>
   cubic_step ''/x'' ''v'' [] = Inr [([], JObj [(''x'', JStr ''v'')])] \<and>
   cubic_step ''g/'' ''v'' [] = Inr [(''g'', JObj [([], JStr ''v'')])]"
  by (simp add: eval_unflatten nth_Cons')

text \<open>
  Claim C4 as the code has it: a header key is split at every \<^verbatim>\<open>/\<close>. If and only if the
  key holds exactly one \<^verbatim>\<open>/\<close> (the two parts around it, either of which may be empty,
  are the group and the field) and the cell is not blank, the field with the cell as a
  string is merged into the nested object under the group: a new group goes to the end,
  an existing group and an existing field keep their places (a group that holds a scalar
  raises \<^verbatim>\<open>AttributeError\<close>). Otherwise the key is a top-level scalar key: \<^verbatim>\<open>True\<close>
  gives the boolean, a blank cell leaves the key out, any other cell is the string.
\<close>

theorem cubic_step_cases:
  "cubic_step k v cubic =
     (if v \<noteq> [] \<and> count_list k CHR ''/'' = 1 then
        (let group = takeWhile (\<lambda>x. x \<noteq> CHR ''/'') k;
             field = tl (dropWhile (\<lambda>x. x \<noteq> CHR ''/'') k)
         in case od_get cubic group of
              None \<Rightarrow> Inr (od_set cubic group (JObj [(field, JStr v)]))
            | Some (JObj sub) \<Rightarrow> Inr (od_set cubic group (JObj (od_set sub field (JStr v))))
            | Some other \<Rightarrow> Inl AttributeError)
      else if v = ''True'' then Inr (od_set cubic k (JBool True))
      else if v \<noteq> [] then Inr (od_set cubic k (JStr v))
      else Inr cubic)
   \<and> (count_list k CHR ''/'' = 1 \<longrightarrow>
        k = takeWhile (\<lambda>x. x \<noteq> CHR ''/'') k @ ''/'' @ tl (dropWhile (\<lambda>x. x \<noteq> CHR ''/'') k) \<and>
        CHR ''/'' \<notin> set (takeWhile (\<lambda>x. x \<noteq> CHR ''/'') k) \<and>
        CHR ''/'' \<notin> set (tl (dropWhile (\<lambda>x. x \<noteq> CHR ''/'') k)))
   \<and> map fst (od_set cubic g x) =
       (if g \<in> set (map fst cubic) then map fst cubic else map fst cubic @ [g])"
proof -
  have 1: "cubic_step k v cubic =
     (if v \<noteq> [] \<and> count_list k CHR ''/'' = 1 then
        (let group = takeWhile (\<lambda>x. x \<noteq> CHR ''/'') k;
             field = tl (dropWhile (\<lambda>x. x \<noteq> CHR ''/'') k)
         in case od_get cubic group of
              None \<Rightarrow> Inr (od_set cubic group (JObj [(field, JStr v)]))
            | Some (JObj sub) \<Rightarrow> Inr (od_set cubic group (JObj (od_set sub field (JStr v))))
            | Some other \<Rightarrow> Inl AttributeError)
      else if v = ''True'' then Inr (od_set cubic k (JBool True))
      else if v \<noteq> [] then Inr (od_set cubic k (JStr v))
      else Inr cubic)"
  proof (cases "count_list k CHR ''/'' = 1")
    case True
    from split_sep_one [OF True] show ?thesis
      by (simp add: cubic_step_def Let_def True nth_Cons' split: option.split json.split)
  next
    case False
    then have "length (split_sep CHR ''/'' k) \<noteq> 2"
      by (simp add: length_split_sep)
    with False show ?thesis
      by (simp add: cubic_step_def Let_def)
  qed
  have 2: "count_list k CHR ''/'' = 1 \<longrightarrow>
        k = takeWhile (\<lambda>x. x \<noteq> CHR ''/'') k @ ''/'' @ tl (dropWhile (\<lambda>x. x \<noteq> CHR ''/'') k) \<and>
        CHR ''/'' \<notin> set (takeWhile (\<lambda>x. x \<noteq> CHR ''/'') k) \<and>
        CHR ''/'' \<notin> set (tl (dropWhile (\<lambda>x. x \<noteq> CHR ''/'') k))"
    using one_sep_decompose [of k "CHR ''/''"] by simp
  from 1 2 keys_od_set [of cubic g x] show ?thesis by blast
qed

theorem cubic_step_cases_witness:
  "cubic_step ''stack/ip'' ''1.2.3.4'' [(''name'', JStr ''r1'')] =
     Inr [(''name'', JStr ''r1''), (''stack'', JObj [(''ip'', JStr ''1.2.3.4'')])] \<and>
   cubic_step ''stack/gw'' ''1.2.3.1'' [(''stack'', JObj [(''ip'', JStr ''1.2.3.4'')]), (''name'', JStr ''r1'')] =
     Inr [(''stack'', JObj [(''ip'', JStr ''1.2.3.4''), (''gw'', JStr ''1.2.3.1'')]), (''name'', JStr ''r1'')] \<and>
   cubic_step ''enabled'' ''True'' [] = Inr [(''enabled'', JBool True)] \<and>
   cubic_step ''a/b/c'' ''x'' [] = Inr [(''a/b/c'', JStr ''x'')]"
  using cubic_step_cases [of "''stack/ip''" "''1.2.3.4''" "[(''name'', JStr ''r1'')]" "[]" "JNull"]
    cubic_step_cases [of "''stack/gw''" "''1.2.3.1''"
      "[(''stack'', JObj [(''ip'', JStr ''1.2.3.4'')]), (''name'', JStr ''r1'')]" "[]" "JNull"]
    cubic_step_cases [of "''enabled''" "''True''" "[]" "[]" "JNull"]
    cubic_step_cases [of "''a/b/c''" "''x''" "[]" "[]" "JNull"]
  by (simp add: od_get_def)


subsection \<open>Dictionaries built from fresh keys\<close>

lemma od_set_fresh: "k \<notin> set (map fst d) \<Longrightarrow> od_set d k v = d @ [(k, v)]"
  by (induction d) auto

lemma od_set_last: "k \<notin> set (map fst d) \<Longrightarrow> od_set (d @ [(k, v)]) k v' = d @ [(k, v')]"
  by (induction d) auto

lemma od_get_fresh: "k \<notin> set (map fst d) \<Longrightarrow> od_get d k = None"
  by (simp add: od_get_def map_of_eq_None_iff)

lemma od_get_last: "k \<notin> set (map fst d) \<Longrightarrow> od_get (d @ [(k, v)]) k = Some v"
  by (induction d) (auto simp: od_get_def)

lemma od_get_member: "distinct (map fst d) \<Longrightarrow> (k, v) \<in> set d \<Longrightarrow> od_get d k = Some v"
  by (simp add: od_get_def)

lemma distinct_od_set: "distinct (map fst d) \<Longrightarrow> distinct (map fst (od_set d k v))"
  by (simp add: keys_od_set)

lemma distinct_foldl_od_set:
  "distinct (map fst acc) \<Longrightarrow> distinct (map fst (foldl (\<lambda>d k. od_set d k ()) acc ks))"
  by (induction ks arbitrary: acc) (simp_all add: distinct_od_set)

lemma set_keys_od_set: "set (map fst (od_set d k v)) = insert k (set (map fst d))"
  by (auto simp: keys_od_set simp del: set_map)

lemma set_foldl_od_set:
  "set (map fst (foldl (\<lambda>d k. od_set d k ()) acc ks)) = set (map fst acc) \<union> set ks"
  by (induction ks arbitrary: acc) (simp_all add: set_keys_od_set del: set_map)

lemma distinct_fromkeys: "distinct (fromkeys ks)"
  by (simp add: fromkeys_def distinct_foldl_od_set)

lemma set_fromkeys: "set (fromkeys ks) = set ks"
  using set_foldl_od_set [of "[]" ks] by (simp add: fromkeys_def)

lemma foldl_od_set_distinct:
  "distinct (map fst (acc @ ps)) \<Longrightarrow> foldl (\<lambda>d (k, v). od_set d k v) acc ps = acc @ ps"
proof (induction ps arbitrary: acc)
  case Nil
  then show ?case by simp
next
  case (Cons p ps)
  obtain k v where p: "p = (k, v)" by (cases p)
  from Cons.prems p have "k \<notin> set (map fst acc)" by auto
  then have "od_set acc k v = acc @ [(k, v)]" by (rule od_set_fresh)
  with Cons.IH [of "acc @ [(k, v)]"] Cons.prems p show ?case by simp
qed

lemma od_of_pairs_distinct: "distinct (map fst ps) \<Longrightarrow> od_of_pairs ps = ps"
  using foldl_od_set_distinct [of "[]" ps] by (simp add: od_of_pairs_def)

subsection \<open>The fields of the table\<close>

lemma csv_table_eq:
  "csv_table py_str (JArr data) = (columns, rows) \<longleftrightarrow>
   columns = fromkeys (concat (map (map fst \<circ> flatten) data)) \<and>
   rows = map (\<lambda>e. csv_row py_str columns (flatten e)) data"
  by (auto simp: Let_def comp_def)

lemmas eval_table =
  Let_def fromkeys_def csv_row_def od_get_def example_str_def

text \<open>
  Claim C3 says that in the table a boolean true is written as \<^verbatim>\<open>True\<close> and that a
  boolean false and an absent value are both written as the empty field. The writer
  applies \<^verbatim>\<open>str\<close> to a boolean: false is written as \<^verbatim>\<open>False\<close>.
\<close>

theorem false_is_written_as_False:
  "csv_table example_str (JArr [JObj [(''stack'', JObj [(''ip'', JStr ''1.2.3.4'')]), (''enabled'', JBool False)]]) =
   ([''stack/ip'', ''enabled''], [[''1.2.3.4'', ''False'']])"
  by (simp add: eval_table)

text \<open>
  Claim C3 as the code has it: there is a row for every entry and a field for every
  column, every flat key of an entry is a column, and the field of an entry in a column
  is empty when the entry has no value there, \<^verbatim>\<open>True\<close> for the boolean true and
  \<^verbatim>\<open>False\<close> for the boolean false.
\<close>

theorem csv_field_rendering:
  assumes "csv_table py_str (JArr data) = (columns, rows)"
    and "i < length data" and "j < length columns"
  shows "length rows = length data \<and> length (rows ! i) = length columns \<and>
    set (map fst (flatten (data ! i))) \<subseteq> set columns \<and>
    rows ! i ! j =
      (case od_get (flatten (data ! i)) (columns ! j) of
         None \<Rightarrow> []
       | Some (JBool True) \<Rightarrow> ''True''
       | Some (JBool False) \<Rightarrow> ''False''
       | Some v \<Rightarrow> csv_field py_str v)"
proof -
  from assms(1) have c: "columns = fromkeys (concat (map (map fst \<circ> flatten) data))"
    and r: "rows = map (\<lambda>e. csv_row py_str columns (flatten e)) data"
    unfolding csv_table_eq by blast+
  from r have 1: "length rows = length data" by simp
  from r assms(2) have ri: "rows ! i = csv_row py_str columns (flatten (data ! i))" by simp
  then have 2: "length (rows ! i) = length columns" by (simp add: csv_row_def)
  from assms(2) have "data ! i \<in> set data" by simp
  then have 3: "set (map fst (flatten (data ! i))) \<subseteq> set columns"
    unfolding c set_fromkeys by auto
  from ri assms(3) have 4: "rows ! i ! j =
      (case od_get (flatten (data ! i)) (columns ! j) of
         None \<Rightarrow> []
       | Some (JBool True) \<Rightarrow> ''True''
       | Some (JBool False) \<Rightarrow> ''False''
       | Some v \<Rightarrow> csv_field py_str v)"
    by (simp add: csv_row_def split: option.split json.split bool.split)
  from 1 2 3 4 show ?thesis by blast
qed

theorem csv_field_rendering_witness:
  "csv_table example_str
     (JArr [JObj [(''stack'', JObj [(''ip'', JStr ''1.2.3.4'')]), (''enabled'', JBool True)],
            JObj [(''enabled'', JBool False)]]) =
     ([''stack/ip'', ''enabled''], [[''1.2.3.4'', ''True''], [[], ''False'']])
   \<and> [[''1.2.3.4'', ''True''], [[], ''False'']] ! 1 ! 0 = []
   \<and> [[''1.2.3.4'', ''True''], [[], ''False'']] ! 1 ! 1 = ''False''
   \<and> [[''1.2.3.4'', ''True''], [[], ''False'']] ! 0 ! 1 = ''True''"
proof -
  let ?data = "[JObj [(''stack'', JObj [(''ip'', JStr ''1.2.3.4'')]), (''enabled'', JBool True)],
            JObj [(''enabled'', JBool False)]]"
  let ?rows = "[[''1.2.3.4'', ''True''], [[], ''False'']]"
  have t: "csv_table example_str (JArr ?data) = ([''stack/ip'', ''enabled''], ?rows)"
    by (simp add: eval_table)
  from csv_field_rendering [OF t, of 1 0] csv_field_rendering [OF t, of 1 1]
    csv_field_rendering [OF t, of 0 1] t
  show ?thesis by (simp add: od_get_def)
qed


subsection \<open>The flat dictionary of an entry\<close>

lemma slash_prefix_unique:
  assumes "c \<notin> set a" "c \<notin> set a'" "a @ c # b = a' @ c # b'"
  shows "a = a' \<and> b = b'"
proof -
  from assms(1) have "takeWhile (\<lambda>x. x \<noteq> c) (a @ c # b) = a"
    by (auto simp: takeWhile_tail)
  moreover from assms(2) have "takeWhile (\<lambda>x. x \<noteq> c) (a' @ c # b') = a'"
    by (auto simp: takeWhile_tail)
  ultimately have "a = a'" using assms(3) by simp
  with assms(3) show ?thesis by simp
qed

lemma keys_nested:
  "map fst (map (\<lambda>(kk, v). (k @ ''/'' @ kk, v)) sub) = map (\<lambda>kk. k @ ''/'' @ kk) (map fst sub)"
  by (induction sub) auto

lemma flatten_nested_fresh:
  "distinct (map fst flat @ map (\<lambda>kk. k @ ''/'' @ kk) (map fst sub)) \<Longrightarrow>
   flatten_nested k sub flat = flat @ map (\<lambda>(kk, v). (k @ ''/'' @ kk, v)) sub"
proof (induction sub arbitrary: flat)
  case Nil
  then show ?case by simp
next
  case (Cons p sub)
  obtain kk v where p: "p = (kk, v)" by (cases p)
  from Cons.prems p have "k @ ''/'' @ kk \<notin> set (map fst flat)" by auto
  then have "od_set flat (k @ ''/'' @ kk) v = flat @ [(k @ ''/'' @ kk, v)]"
    by (rule od_set_fresh)
  with Cons.IH [of "flat @ [(k @ ''/'' @ kk, v)]"] Cons.prems p show ?case by simp
qed

lemma flatten_items_fresh:
  "distinct (map fst (flat @ flat_pairs dct)) \<Longrightarrow> flatten_items dct flat = flat @ flat_pairs dct"
proof (induction dct flat rule: flatten_items.induct)
  case (1 flat)
  then show ?case by simp
next
  case (2 k sub dct flat)
  from "2.prems" have "distinct (map fst flat @
      map fst (map (\<lambda>(kk, v). (k @ ''/'' @ kk, v)) sub) @ map fst (flat_pairs dct))"
    by (simp only: flat_pairs.simps map_append)
  then have "distinct ((map fst flat @ map (\<lambda>kk. k @ ''/'' @ kk) (map fst sub)) @
      map fst (flat_pairs dct))"
    by (simp only: keys_nested append_assoc)
  then have "distinct (map fst flat @ map (\<lambda>kk. k @ ''/'' @ kk) (map fst sub))"
    using distinct_append by blast
  then have n: "flatten_nested k sub flat = flat @ map (\<lambda>(kk, v). (k @ ''/'' @ kk, v)) sub"
    by (rule flatten_nested_fresh)
  from "2.prems" have "distinct (map fst ((flat @ map (\<lambda>(kk, v). (k @ ''/'' @ kk, v)) sub) @ flat_pairs dct))"
    by simp
  with "2.IH" [unfolded n] n show ?case by simp
qed (simp_all add: od_set_fresh)

lemma distinct_nested:
  assumes "distinct (map fst sub)"
  shows "distinct (map (\<lambda>kk. k @ ''/'' @ kk) (map fst sub))"
proof -
  have "inj_on (\<lambda>kk. k @ ''/'' @ kk) (set (map fst sub))"
    by (rule inj_onI) simp
  with assms show ?thesis by (metis distinct_map)
qed

text \<open>The items of the flat dictionary are the scalars of the entry and the items of its
  nested dictionaries.\<close>

lemma flat_pairs_member:
  "(x, y) \<in> set (flat_pairs dct) \<longleftrightarrow>
   ((x, y) \<in> set dct \<and> \<not> is_OrderedDict y) \<or>
   (\<exists>k sub kk. (k, JObj sub) \<in> set dct \<and> (kk, y) \<in> set sub \<and> x = k @ ''/'' @ kk)"
proof (induction dct rule: flat_pairs.induct)
  case 1
  then show ?case by simp
next
  case (2 k sub dct)
  have a: "(x, y) \<in> set (map (\<lambda>(kk, v). (k @ ''/'' @ kk, v)) sub) \<longleftrightarrow>
      (\<exists>kk. (kk, y) \<in> set sub \<and> x = k @ ''/'' @ kk)"
    by auto
  have l: "(x, y) \<in> set (flat_pairs ((k, JObj sub) # dct)) \<longleftrightarrow>
      (\<exists>kk. (kk, y) \<in> set sub \<and> x = k @ ''/'' @ kk) \<or> (x, y) \<in> set (flat_pairs dct)"
    unfolding a [symmetric] by (simp only: flat_pairs.simps set_append Un_iff)
  have s: "(x, y) \<in> set ((k, JObj sub) # dct) \<and> \<not> is_OrderedDict y \<longleftrightarrow>
      (x, y) \<in> set dct \<and> \<not> is_OrderedDict y"
    by auto
  have n: "(\<exists>k' sub' kk. (k', JObj sub') \<in> set ((k, JObj sub) # dct) \<and> (kk, y) \<in> set sub' \<and>
        x = k' @ ''/'' @ kk) \<longleftrightarrow>
      (\<exists>kk. (kk, y) \<in> set sub \<and> x = k @ ''/'' @ kk) \<or>
      (\<exists>k' sub' kk. (k', JObj sub') \<in> set dct \<and> (kk, y) \<in> set sub' \<and> x = k' @ ''/'' @ kk)"
    by (simp only: set_simps insert_iff prod.inject json.inject) blast
  from "2.IH" show ?case unfolding l s n by blast
qed auto

lemma count_slash_nested:
  "CHR ''/'' \<notin> set k \<Longrightarrow> CHR ''/'' \<notin> set kk \<Longrightarrow> count_list (k @ ''/'' @ kk) CHR ''/'' = 1"
  by (simp add: count_list_0_iff)

text \<open>What an item of the flat dictionary of a lossless entry is.\<close>

lemma flat_pairs_cases:
  assumes "list_all (\<lambda>(k, v). item_ok k v) dct" and "(x, y) \<in> set (flat_pairs dct)"
  obtains (scalar) "(x, y) \<in> set dct" "\<not> is_OrderedDict y" "item_ok x y"
      "count_list x CHR ''/'' \<noteq> 1"
    | (nested) k sub kk s where "(k, JObj sub) \<in> set dct" "(kk, JStr s) \<in> set sub"
      "x = k @ ''/'' @ kk" "y = JStr s" "s \<noteq> []" "CHR ''/'' \<notin> set k" "CHR ''/'' \<notin> set kk"
      "count_list x CHR ''/'' = 1" "item_ok k (JObj sub)"
proof -
  from assms(2) consider "(x, y) \<in> set dct \<and> \<not> is_OrderedDict y"
    | "\<exists>k sub kk. (k, JObj sub) \<in> set dct \<and> (kk, y) \<in> set sub \<and> x = k @ ''/'' @ kk"
    unfolding flat_pairs_member by blast
  then show thesis
  proof cases
    case 1
    with assms(1) have ok: "item_ok x y" by (auto simp: list_all_iff)
    with 1 have "count_list x CHR ''/'' \<noteq> 1" by (cases y) auto
    with 1 ok show thesis by (intro scalar) auto
  next
    case 2
    then obtain k sub kk where m: "(k, JObj sub) \<in> set dct" "(kk, y) \<in> set sub"
      "x = k @ ''/'' @ kk" by blast
    from assms(1) have "\<forall>p\<in>set dct. item_ok (fst p) (snd p)"
      by (simp add: list_all_iff case_prod_beta)
    with m(1) have ok: "item_ok k (JObj sub)" by force
    then have k1: "CHR ''/'' \<notin> set k"
      and all: "\<forall>(kk, v)\<in>set sub. CHR ''/'' \<notin> set kk \<and> nested_value_ok v"
      by (simp_all add: list_all_iff)
    from all m(2) have k2: "CHR ''/'' \<notin> set kk" and "nested_value_ok y" by auto
    then obtain s where s: "y = JStr s" "s \<noteq> []" by (cases y) auto
    note k = k1 k2
    from count_slash_nested [OF k] m(3) have "count_list x CHR ''/'' = 1" by simp
    with m s k ok show thesis by (intro nested [of k sub kk s]) auto
  qed
qed

lemma distinct_flat_pairs:
  assumes "distinct (map fst dct)" and "list_all (\<lambda>(k, v). item_ok k v) dct"
  shows "distinct (map fst (flat_pairs dct))"
  using assms
proof (induction dct)
  case Nil
  then show ?case by simp
next
  case (Cons p dct)
  obtain k v where p: "p = (k, v)" by (cases p)
  from Cons.prems p have fresh: "k \<notin> set (map fst dct)" and ok: "item_ok k v"
    and rest: "list_all (\<lambda>(k, v). item_ok k v) dct"
    by auto
  from Cons have IH: "distinct (map fst (flat_pairs dct))" by simp
  show ?case
  proof (cases "is_OrderedDict v")
    case False
    from ok False have c: "count_list k CHR ''/'' \<noteq> 1" by (cases v) auto
    have "k \<notin> set (map fst (flat_pairs dct))"
    proof
      assume "k \<in> set (map fst (flat_pairs dct))"
      then obtain y where "(k, y) \<in> set (flat_pairs dct)" by auto
      from rest this show False
      proof (cases rule: flat_pairs_cases)
        case scalar
        with fresh show False by force
      next
        case (nested k' sub kk s)
        with c show False by simp
      qed
    qed
    with IH False p show ?thesis by (cases v) auto
  next
    case True
    then obtain sub where v: "v = JObj sub" by (cases v) auto
    from ok v have k: "CHR ''/'' \<notin> set k" and ds: "distinct (map fst sub)"
      and kks: "\<forall>kk\<in>set (map fst sub). CHR ''/'' \<notin> set kk"
      by (auto simp: list_all_iff)
    from ds have d: "distinct (map (\<lambda>kk. k @ ''/'' @ kk) (map fst sub))" by (rule distinct_nested)
    have no: "k @ ''/'' @ kk \<notin> set (map fst (flat_pairs dct))" if "kk \<in> set (map fst sub)" for kk
    proof
      assume "k @ ''/'' @ kk \<in> set (map fst (flat_pairs dct))"
      then obtain y where "(k @ ''/'' @ kk, y) \<in> set (flat_pairs dct)" by auto
      from rest this show False
      proof (cases rule: flat_pairs_cases)
        case scalar
        from that kks have "CHR ''/'' \<notin> set kk" by blast
        from count_slash_nested [OF k this] scalar(4) show False by simp
      next
        case (nested k' sub' kk' s)
        from nested(3) have "k @ CHR ''/'' # kk = k' @ CHR ''/'' # kk'" by simp
        from slash_prefix_unique [OF k nested(6) this] have "k = k'" by simp
        with nested(1) fresh show False by force
      qed
    qed
    then have i: "set (map (\<lambda>kk. k @ ''/'' @ kk) (map fst sub)) \<inter> set (map fst (flat_pairs dct)) = {}"
      by auto
    have e: "map fst (flat_pairs (p # dct)) =
        map (\<lambda>kk. k @ ''/'' @ kk) (map fst sub) @ map fst (flat_pairs dct)"
      unfolding p v by (simp only: flat_pairs.simps map_append keys_nested)
    from d i IH show ?thesis unfolding e distinct_append by blast
  qed
qed

lemma flatten_lossless:
  assumes "distinct (map fst dct)" and "list_all (\<lambda>(k, v). item_ok k v) dct"
  shows "flatten (JObj dct) = flat_pairs dct"
  using flatten_items_fresh [of "[]" dct] distinct_flat_pairs [OF assms] by simp

lemma flat_pairs_nonblank:
  assumes "list_all (\<lambda>(k, v). item_ok k v) dct" and "(x, y) \<in> set (flat_pairs dct)"
  shows "csv_field py_str y \<noteq> []"
  using assms
proof (cases rule: flat_pairs_cases)
  case scalar
  then show ?thesis by (cases y) auto
next
  case (nested k sub kk s)
  then show ?thesis by simp
qed

lemma top_key_scalar: "count_list c CHR ''/'' \<noteq> 1 \<Longrightarrow> top_key c = c"
  by (simp add: top_key_def length_split_sep)

lemma top_key_nested:
  "CHR ''/'' \<notin> set k \<Longrightarrow> CHR ''/'' \<notin> set kk \<Longrightarrow> top_key (k @ ''/'' @ kk) = k"
  using split_sep_two [of "CHR ''/''" k kk] by (simp add: top_key_def)


subsection \<open>Rebuilding an entry from its row\<close>

lemma fromkeys_snoc:
  "fromkeys (ks @ [k]) = (if k \<in> set ks then fromkeys ks else fromkeys ks @ [k])"
  using set_foldl_od_set [of "[]" ks] by (simp add: fromkeys_def keys_od_set)

lemma od_get_graph:
  "od_get (map (\<lambda>g. (g, h g)) xs) k = (if k \<in> set xs then Some (h k) else None)"
  by (induction xs) (auto simp: od_get_def)

lemma od_set_graph:
  "k \<in> set xs \<Longrightarrow> distinct xs \<Longrightarrow>
   od_set (map (\<lambda>g. (g, h g)) xs) k w = map (\<lambda>g. (g, if g = k then w else h g)) xs"
  by (induction xs) auto

lemma same_key_same_value:
  "distinct (map fst d) \<Longrightarrow> (k, v) \<in> set d \<Longrightarrow> (k, w) \<in> set d \<Longrightarrow> v = w"
  for d :: "(string \<times> 'v) list"
  using od_get_member [of d k v] od_get_member [of d k w] by simp

lemma built_value_other:
  "top_key c \<noteq> g \<Longrightarrow> built_value cell dct (ks @ [c]) g = built_value cell dct ks g"
  by (simp add: built_value_def split: option.split json.split)

lemma built_value_scalar:
  "od_get dct g = Some v \<Longrightarrow> \<not> is_OrderedDict v \<Longrightarrow> built_value cell dct ks g = v"
  by (cases v) (simp_all add: built_value_def)

lemma built_value_group:
  "od_get dct g = Some (JObj sub) \<Longrightarrow>
   built_value cell dct ks g =
     JObj (map (\<lambda>c. (drop (Suc (length g)) c, JStr (cell c))) (filter (\<lambda>c. top_key c = g) ks))"
  by (simp add: built_value_def)

lemma keys_built: "map fst (built cell dct ks) = fromkeys (map top_key ks)"
  by (simp add: built_def comp_def)

lemma od_get_built:
  "od_get (built cell dct ks) g =
     (if g \<in> set (map top_key ks) then Some (built_value cell dct ks g) else None)"
  unfolding built_def od_get_graph set_fromkeys ..

lemma od_set_built_new:
  assumes "g \<notin> set (map top_key ks)"
  shows "od_set (built cell dct ks) g w = built cell dct ks @ [(g, w)]"
proof -
  from assms have "g \<notin> set (map fst (built cell dct ks))"
    unfolding keys_built set_fromkeys .
  then show ?thesis by (rule od_set_fresh)
qed

lemma od_set_built_old:
  "g \<in> set (map top_key ks) \<Longrightarrow>
   od_set (built cell dct ks) g w =
     map (\<lambda>g'. (g', if g' = g then w else built_value cell dct ks g')) (fromkeys (map top_key ks))"
  unfolding built_def by (rule od_set_graph) (simp_all only: set_fromkeys distinct_fromkeys)

lemma built_snoc_new:
  assumes "top_key c \<notin> set (map top_key ks)"
  shows "built cell dct (ks @ [c]) =
    built cell dct ks @ [(top_key c, built_value cell dct (ks @ [c]) (top_key c))]"
proof -
  from assms have f: "fromkeys (map top_key (ks @ [c])) = fromkeys (map top_key ks) @ [top_key c]"
    by (simp add: fromkeys_snoc)
  have "map (\<lambda>g. (g, built_value cell dct (ks @ [c]) g)) (fromkeys (map top_key ks)) =
      map (\<lambda>g. (g, built_value cell dct ks g)) (fromkeys (map top_key ks))"
  proof (rule map_cong [OF refl])
    fix g assume "g \<in> set (fromkeys (map top_key ks))"
    with assms have "top_key c \<noteq> g" unfolding set_fromkeys by blast
    then show "(g, built_value cell dct (ks @ [c]) g) = (g, built_value cell dct ks g)"
      by (simp add: built_value_other)
  qed
  then show ?thesis unfolding built_def f by simp
qed

lemma built_snoc_old:
  assumes "top_key c \<in> set (map top_key ks)"
  shows "built cell dct (ks @ [c]) =
    map (\<lambda>g. (g, if g = top_key c then built_value cell dct (ks @ [c]) (top_key c)
                 else built_value cell dct ks g)) (fromkeys (map top_key ks))"
proof -
  from assms have f: "fromkeys (map top_key (ks @ [c])) = fromkeys (map top_key ks)"
    by (simp add: fromkeys_snoc)
  show ?thesis unfolding built_def f
    by (rule map_cong [OF refl]) (auto simp: built_value_other)
qed

lemma cubic_step_scalar:
  assumes "count_list c CHR ''/'' \<noteq> 1" and "item_ok c v" and "\<not> is_OrderedDict v"
  shows "cubic_step c (csv_field py_str v) cubic = Inr (od_set cubic c v)"
proof -
  from assms(1) have "length (split_sep CHR ''/'' c) \<noteq> 2" by (simp add: length_split_sep)
  with assms(2,3) show ?thesis by (cases v) (auto simp: cubic_step_def)
qed

lemma cubic_step_nested:
  assumes "CHR ''/'' \<notin> set k" and "CHR ''/'' \<notin> set kk" and "s \<noteq> []"
  shows "cubic_step (k @ ''/'' @ kk) s cubic =
    (case od_get cubic k of
       None \<Rightarrow> Inr (od_set cubic k (JObj [(kk, JStr s)]))
     | Some (JObj sub) \<Rightarrow> Inr (od_set cubic k (JObj (od_set sub kk (JStr s))))
     | Some other \<Rightarrow> Inl AttributeError)"
proof -
  from split_sep_two [OF assms(1,2)] have "split_sep CHR ''/'' (k @ ''/'' @ kk) = [k, kk]"
    by simp
  with assms(3) show ?thesis
    by (simp add: cubic_step_def nth_Cons' split: option.split json.split)
qed


lemma cubic_loop_append:
  "cubic_loop (xs @ ys) cubic =
     (case cubic_loop xs cubic of Inl e \<Rightarrow> Inl e | Inr cubic' \<Rightarrow> cubic_loop ys cubic')"
  by (induction xs arbitrary: cubic) (auto split: sum.splits)

lemma cubic_step_blank: "cubic_step k [] cubic = Inr cubic"
  by (simp add: cubic_step_def Let_def)

lemma cubic_loop_skip_blank:
  "cubic_loop (filter (\<lambda>(k, v). v \<noteq> []) ps) cubic = cubic_loop ps cubic"
  by (induction ps arbitrary: cubic) (auto simp: cubic_step_blank split: sum.splits)

text \<open>One more column of a lossless entry: the step of the loop adds it to what is built.\<close>

lemma built_step:
  assumes d: "distinct (map fst dct)" and ok: "list_all (\<lambda>(k, v). item_ok k v) dct"
    and cell: "\<forall>(c, v)\<in>set (flat_pairs dct). cell c = csv_field py_str v"
    and ks: "set ks \<subseteq> set (map fst (flat_pairs dct))"
    and c: "c \<in> set (map fst (flat_pairs dct))" "c \<notin> set ks"
  shows "cubic_step c (cell c) (built cell dct ks) = Inr (built cell dct (ks @ [c]))"
proof -
  from c(1) obtain y where y: "(c, y) \<in> set (flat_pairs dct)" by auto
  with cell have cy: "cell c = csv_field py_str y" by auto
  from ok y show ?thesis
  proof (cases rule: flat_pairs_cases)
    case scalar
    from scalar(4) have tk: "top_key c = c" by (rule top_key_scalar)
    have fresh: "c \<notin> set (map top_key ks)"
    proof
      assume "c \<in> set (map top_key ks)"
      then obtain c' where c': "c' \<in> set ks" "top_key c' = c" by auto
      with ks obtain y' where "(c', y') \<in> set (flat_pairs dct)" by auto
      from ok this show False
      proof (cases rule: flat_pairs_cases)
        case scalar
        from scalar(4) have "top_key c' = c'" by (rule top_key_scalar)
        with c' c(2) show False by simp
      next
        case (nested k' sub' kk' s')
        from top_key_nested [OF nested(6,7)] nested(3) c'(2) have "k' = c" by simp
        with nested(1) have "(c, JObj sub') \<in> set dct" by simp
        from same_key_same_value [OF d \<open>(c, y) \<in> set dct\<close> this] \<open>\<not> is_OrderedDict y\<close>
        show False by simp
      qed
    qed
    from d scalar(1) have g: "od_get dct c = Some y" by (rule od_get_member)
    have "cubic_step c (cell c) (built cell dct ks) = Inr (od_set (built cell dct ks) c y)"
      unfolding cy using scalar(4,3,2) by (rule cubic_step_scalar)
    also have "od_set (built cell dct ks) c y = built cell dct ks @ [(c, y)]"
      using fresh by (rule od_set_built_new)
    also have "\<dots> = built cell dct (ks @ [c])"
      using built_snoc_new [of c ks cell dct] fresh built_value_scalar [OF g scalar(2)]
      by (simp add: tk)
    finally show ?thesis .
  next
    case (nested k sub kk s)
    from top_key_nested [OF nested(6,7)] nested(3) have tk: "top_key c = k" by simp
    from d nested(1) have g: "od_get dct k = Some (JObj sub)" by (rule od_get_member)
    from cy nested(4) have cs: "cell c = s" by simp
    from nested(3) have dr: "drop (Suc (length k)) c = kk" by simp
    have step: "cubic_step c (cell c) cubic =
      (case od_get cubic k of
         None \<Rightarrow> Inr (od_set cubic k (JObj [(kk, JStr s)]))
       | Some (JObj sub) \<Rightarrow> Inr (od_set cubic k (JObj (od_set sub kk (JStr s))))
       | Some other \<Rightarrow> Inl AttributeError)" for cubic
      using cubic_step_nested [OF nested(6,7,5), of cubic] cs nested(3) by simp
    show ?thesis
    proof (cases "k \<in> set (map top_key ks)")
      case False
      then have "od_get (built cell dct ks) k = None" by (simp add: od_get_built)
      with step have "cubic_step c (cell c) (built cell dct ks) =
          Inr (od_set (built cell dct ks) k (JObj [(kk, JStr s)]))"
        by simp
      also have "od_set (built cell dct ks) k (JObj [(kk, JStr s)]) =
          built cell dct ks @ [(k, JObj [(kk, JStr s)])]"
        using False by (rule od_set_built_new)
      also have "\<dots> = built cell dct (ks @ [c])"
      proof -
        from False have "filter (\<lambda>c. top_key c = k) ks = []"
          by (auto simp: filter_empty_conv)
        then have "built_value cell dct (ks @ [c]) k = JObj [(kk, JStr s)]"
          by (simp add: built_value_group [OF g] tk dr cs)
        with built_snoc_new [of c ks cell dct] False show ?thesis by (simp add: tk)
      qed
      finally show ?thesis .
    next
      case True
      let ?fields = "map (\<lambda>c. (drop (Suc (length k)) c, JStr (cell c))) (filter (\<lambda>c. top_key c = k) ks)"
      from True have "od_get (built cell dct ks) k = Some (JObj ?fields)"
        by (simp add: od_get_built built_value_group [OF g])
      with step have "cubic_step c (cell c) (built cell dct ks) =
          Inr (od_set (built cell dct ks) k (JObj (od_set ?fields kk (JStr s))))"
        by simp
      also have "od_set ?fields kk (JStr s) = ?fields @ [(kk, JStr s)]"
      proof (rule od_set_fresh, rule)
        assume "kk \<in> set (map fst ?fields)"
        then obtain c' where c': "c' \<in> set ks" "top_key c' = k" "drop (Suc (length k)) c' = kk"
          by auto
        with ks obtain y' where "(c', y') \<in> set (flat_pairs dct)" by auto
        from ok this show False
        proof (cases rule: flat_pairs_cases)
          case scalar
          from scalar(4) have "top_key c' = c'" by (rule top_key_scalar)
          with c'(2) scalar(1) have "(k, y') \<in> set dct" by simp
          from same_key_same_value [OF d this nested(1)] \<open>\<not> is_OrderedDict y'\<close>
          show False by simp
        next
          case (nested k' sub' kk' s')
          from top_key_nested [OF nested(6,7)] nested(3) c'(2) have "k' = k" by simp
          with nested(3) c'(3) have "c' = k @ ''/'' @ kk" by simp
          with \<open>c = k @ ''/'' @ kk\<close> c'(1) c(2) show False by simp
        qed
      qed
      also have "od_set (built cell dct ks) k (JObj (?fields @ [(kk, JStr s)])) =
          map (\<lambda>g. (g, if g = k then JObj (?fields @ [(kk, JStr s)]) else built_value cell dct ks g))
            (fromkeys (map top_key ks))"
        using True by (rule od_set_built_old)
      also have "\<dots> = built cell dct (ks @ [c])"
      proof -
        have "built_value cell dct (ks @ [c]) k = JObj (?fields @ [(kk, JStr s)])"
          by (simp add: built_value_group [OF g] tk dr cs)
        with built_snoc_old [of c ks cell dct] True show ?thesis by (simp add: tk)
      qed
      finally show ?thesis .
    qed
  qed
qed

lemma built_loop:
  assumes d: "distinct (map fst dct)" and ok: "list_all (\<lambda>(k, v). item_ok k v) dct"
    and cell: "\<forall>(c, v)\<in>set (flat_pairs dct). cell c = csv_field py_str v"
    and ks: "set ks \<subseteq> set (map fst (flat_pairs dct))" "distinct ks"
  shows "cubic_loop (map (\<lambda>c. (c, cell c)) ks) [] = Inr (built cell dct ks)"
  using ks
proof (induction ks rule: rev_induct)
  case Nil
  then show ?case by (simp add: built_def fromkeys_def)
next
  case (snoc c ks)
  from snoc.prems have sub: "set ks \<subseteq> set (map fst (flat_pairs dct))"
    and c: "c \<in> set (map fst (flat_pairs dct))" "c \<notin> set ks" and "distinct ks"
    by auto
  with snoc.IH have "cubic_loop (map (\<lambda>c. (c, cell c)) ks) [] = Inr (built cell dct ks)"
    by blast
  with built_step [OF d ok cell sub c] show ?case
    by (simp add: cubic_loop_append)
qed


text \<open>The columns of a nested dictionary of a lossless entry.\<close>

lemma nested_columns:
  assumes d: "distinct (map fst dct)" and ok: "list_all (\<lambda>(k, v). item_ok k v) dct"
    and k: "(k, JObj sub) \<in> set dct"
  shows "c \<in> set (map fst (flat_pairs dct)) \<and> top_key c = k \<longleftrightarrow>
    c \<in> set (map (\<lambda>kk. k @ ''/'' @ kk) (map fst sub))"
proof
  assume a: "c \<in> set (map fst (flat_pairs dct)) \<and> top_key c = k"
  then obtain y where "(c, y) \<in> set (flat_pairs dct)" by auto
  from ok this show "c \<in> set (map (\<lambda>kk. k @ ''/'' @ kk) (map fst sub))"
  proof (cases rule: flat_pairs_cases)
    case scalar
    from scalar(4) have "top_key c = c" by (rule top_key_scalar)
    with a scalar(1) have "(k, y) \<in> set dct" by simp
    from same_key_same_value [OF d this k] \<open>\<not> is_OrderedDict y\<close> show ?thesis by simp
  next
    case (nested k' sub' kk s)
    from top_key_nested [OF nested(6,7)] nested(3) a have "k' = k" by simp
    with nested(1) have "(k, JObj sub') \<in> set dct" by simp
    from same_key_same_value [OF d this k] have "sub' = sub" by simp
    with nested(2,3) \<open>k' = k\<close> show ?thesis by force
  qed
next
  assume "c \<in> set (map (\<lambda>kk. k @ ''/'' @ kk) (map fst sub))"
  then obtain kk y where kk: "(kk, y) \<in> set sub" "c = k @ ''/'' @ kk" by auto
  with k have m: "(c, y) \<in> set (flat_pairs dct)" unfolding flat_pairs_member by blast
  from ok m have "top_key c = k"
  proof (cases rule: flat_pairs_cases)
    case scalar
    from same_key_same_value [OF d k] have "\<And>w. (k, w) \<in> set dct \<Longrightarrow> w = JObj sub" by metis
    from ok have "\<forall>p\<in>set dct. item_ok (fst p) (snd p)"
      by (simp add: list_all_iff case_prod_beta)
    with k have "item_ok k (JObj sub)" by force
    then have "CHR ''/'' \<notin> set k" and "\<forall>(kk, v)\<in>set sub. CHR ''/'' \<notin> set kk \<and> nested_value_ok v"
      by (simp_all add: list_all_iff)
    with kk(1) have "CHR ''/'' \<notin> set k" "CHR ''/'' \<notin> set kk" by auto
    from top_key_nested [OF this] kk(2) show ?thesis by simp
  next
    case (nested k' sub' kk' s)
    from top_key_nested [OF nested(6,7)] nested(3) have t: "top_key c = k'" by simp
    from ok have "\<forall>p\<in>set dct. item_ok (fst p) (snd p)"
      by (simp add: list_all_iff case_prod_beta)
    with k have "item_ok k (JObj sub)" by force
    then have "CHR ''/'' \<notin> set k" by simp
    from nested(3) kk(2) have "k @ CHR ''/'' # kk = k' @ CHR ''/'' # kk'" by simp
    from slash_prefix_unique [OF \<open>CHR ''/'' \<notin> set k\<close> nested(6) this] t show ?thesis by simp
  qed
  with m show "c \<in> set (map fst (flat_pairs dct)) \<and> top_key c = k" by force
qed

lemma built_in_order:
  assumes d: "distinct (map fst dct)" and ok: "list_all (\<lambda>(k, v). item_ok k v) dct"
    and cell: "\<forall>(c, v)\<in>set (flat_pairs dct). cell c = csv_field py_str v"
    and ord: "in_column_order columns (JObj dct)"
  shows "built cell dct (filter (\<lambda>c. c \<in> set (map fst (flat_pairs dct))) columns) = dct"
proof -
  let ?ks = "filter (\<lambda>c. c \<in> set (map fst (flat_pairs dct))) columns"
  from ord have c1: "fromkeys (map top_key ?ks) = map fst dct"
    and c2: "list_all (fields_in_order columns) dct"
    by (simp_all only: in_column_order.simps flatten_lossless [OF d ok])
  have "(fst p, built_value cell dct ?ks (fst p)) = p" if p: "p \<in> set dct" for p
  proof -
    obtain k v where kv: "p = (k, v)" by (cases p)
    from d p kv have g: "od_get dct k = Some v" by (simp add: od_get_member)
    have "built_value cell dct ?ks k = v"
    proof (cases "is_OrderedDict v")
      case False
      with g show ?thesis by (rule built_value_scalar)
    next
      case True
      then obtain sub where v: "v = JObj sub" by (cases v) auto
      from p kv v have m: "(k, JObj sub) \<in> set dct" by simp
      from c2 m have "fields_in_order columns (k, JObj sub)" by (auto simp: list_all_iff)
      then have o: "filter (\<lambda>c. c \<in> set (map (\<lambda>kk. k @ ''/'' @ kk) (map fst sub))) columns =
          map (\<lambda>kk. k @ ''/'' @ kk) (map fst sub)"
        by simp
      have "filter (\<lambda>c. top_key c = k) ?ks =
          filter (\<lambda>c. c \<in> set (map fst (flat_pairs dct)) \<and> top_key c = k) columns"
        by (simp add: conj_commute)
      also have "\<dots> = filter (\<lambda>c. c \<in> set (map (\<lambda>kk. k @ ''/'' @ kk) (map fst sub))) columns"
        using nested_columns [OF d ok m] by (intro filter_cong refl) blast
      also note o
      finally have f: "filter (\<lambda>c. top_key c = k) ?ks = map (\<lambda>kk. k @ ''/'' @ kk) (map fst sub)" .
      from ok have "\<forall>p\<in>set dct. item_ok (fst p) (snd p)"
        by (simp add: list_all_iff case_prod_beta)
      with m have "item_ok k (JObj sub)" by force
      then have nv: "\<forall>(kk, w)\<in>set sub. nested_value_ok w" by (auto simp: list_all_iff)
      have "(kk, JStr (cell (k @ ''/'' @ kk))) = q" if q: "q \<in> set sub" and kq: "kk = fst q" for q kk
      proof -
        obtain w where qw: "q = (kk, w)" using kq by (cases q) simp
        with q nv have "nested_value_ok w" by auto
        then obtain s where w: "w = JStr s" by (cases w) auto
        from m q qw have "(k @ ''/'' @ kk, w) \<in> set (flat_pairs dct)"
          unfolding flat_pairs_member by blast
        with cell have "cell (k @ ''/'' @ kk) = csv_field py_str w" by auto
        with w qw show ?thesis by simp
      qed
      then have "map (\<lambda>q. (fst q, JStr (cell (k @ ''/'' @ fst q)))) sub = sub"
        by (intro map_idI) simp
      then have "map (\<lambda>c. (drop (Suc (length k)) c, JStr (cell c)))
          (map (\<lambda>kk. k @ ''/'' @ kk) (map fst sub)) = sub"
        by (simp add: comp_def)
      with built_value_group [OF g [unfolded v], of cell ?ks] f v show ?thesis by simp
    qed
    with kv show ?thesis by simp
  qed
  then have "map (\<lambda>p. (fst p, built_value cell dct ?ks (fst p))) dct = dct"
    by (intro map_idI)
  then show ?thesis unfolding built_def c1 by (simp add: comp_def)
qed

lemma row_cells:
  assumes "distinct (map fst flat)" and "\<forall>(k, v)\<in>set flat. csv_field py_str v \<noteq> []"
  shows "filter (\<lambda>(k, v). v \<noteq> []) (zip columns (csv_row py_str columns flat)) =
    map (\<lambda>c. (c, case od_get flat c of None \<Rightarrow> [] | Some v \<Rightarrow> csv_field py_str v))
      (filter (\<lambda>c. c \<in> set (map fst flat)) columns)"
proof -
  let ?f = "\<lambda>c. case od_get flat c of None \<Rightarrow> [] | Some v \<Rightarrow> csv_field py_str v"
  have z: "zip columns (csv_row py_str columns flat) = map (\<lambda>c. (c, ?f c)) columns"
    by (simp add: csv_row_def zip_map2 zip_same_conv_map)
  have present: "?f c \<noteq> [] \<longleftrightarrow> c \<in> set (map fst flat)" for c
  proof (cases "od_get flat c")
    case None
    then have "c \<notin> set (map fst flat)" by (simp add: od_get_def map_of_eq_None_iff)
    with None show ?thesis by simp
  next
    case (Some v)
    then have "(c, v) \<in> set flat" by (simp add: od_get_def map_of_SomeD)
    with assms(2) Some show ?thesis by force
  qed
  have "filter (\<lambda>(k, v). v \<noteq> []) (map (\<lambda>c. (c, ?f c)) columns) =
      map (\<lambda>c. (c, ?f c)) (filter (\<lambda>c. ?f c \<noteq> []) columns)"
    by (simp add: filter_map comp_def)
  also have "filter (\<lambda>c. ?f c \<noteq> []) columns = filter (\<lambda>c. c \<in> set (map fst flat)) columns"
    using present by (intro filter_cong) auto
  finally show ?thesis unfolding z .
qed

lemma row_round_trip:
  assumes "distinct columns" and "lossless_entry (JObj dct)"
    and "in_column_order columns (JObj dct)"
  shows "cubic_loop (od_of_pairs (zip columns (csv_row py_str columns (flatten (JObj dct))))) [] =
    Inr dct"
proof -
  from assms(2) have d: "distinct (map fst dct)"
    and ok: "list_all (\<lambda>(k, v). item_ok k v) dct"
    by simp_all
  from d ok have df: "distinct (map fst (flat_pairs dct))" by (rule distinct_flat_pairs)
  note fl = flatten_lossless [OF d ok]
  from flat_pairs_nonblank [OF ok] have nb: "\<forall>(k, v)\<in>set (flat_pairs dct). csv_field py_str v \<noteq> []"
    by blast
  let ?cell = "\<lambda>c. case od_get (flat_pairs dct) c of None \<Rightarrow> [] | Some v \<Rightarrow> csv_field py_str v"
  let ?ks = "filter (\<lambda>c. c \<in> set (map fst (flat_pairs dct))) columns"
  have cell: "\<forall>(c, v)\<in>set (flat_pairs dct). ?cell c = csv_field py_str v"
    using od_get_member [OF df] by auto
  let ?row = "csv_row py_str columns (flat_pairs dct)"
  have "distinct (map fst (zip columns ?row))"
    using assms(1) by (simp add: csv_row_def)
  then have "od_of_pairs (zip columns ?row) = zip columns ?row"
    by (rule od_of_pairs_distinct)
  then have "cubic_loop (od_of_pairs (zip columns ?row)) [] =
      cubic_loop (filter (\<lambda>(k, v). v \<noteq> []) (zip columns ?row)) []"
    by (simp add: cubic_loop_skip_blank)
  also have "\<dots> = cubic_loop (map (\<lambda>c. (c, ?cell c)) ?ks) []"
    by (simp only: row_cells [OF df nb])
  also have "\<dots> = Inr (built ?cell dct ?ks)"
    using assms(1) by (intro built_loop [OF d ok cell]) auto
  also have "built ?cell dct ?ks = dct"
    using d ok cell assms(3) by (rule built_in_order)
  finally show ?thesis unfolding fl .
qed

lemma read_row_within_limit: "within_limit row \<Longrightarrow> read_row row = Inr row"
  by (auto simp: read_row_def within_limit_def list_ex_iff list_all_iff)

lemma unflatten_rows:
  assumes "distinct columns" and "list_all lossless_entry es"
    and "list_all (in_column_order columns) es"
    and "list_all (\<lambda>e. within_limit (csv_row py_str columns (flatten e))) es"
  shows "unflatten columns (map (\<lambda>e. csv_row py_str columns (flatten e)) es) = Inr es"
  using assms(2,3,4)
proof (induction es)
  case Nil
  then show ?case by simp
next
  case (Cons e es)
  from Cons.prems have l: "lossless_entry e" and o: "in_column_order columns e"
    and w: "within_limit (csv_row py_str columns (flatten e))"
    by simp_all
  from l obtain dct where e: "e = JObj dct" by (cases e) auto
  from row_round_trip [OF assms(1) l [unfolded e] o [unfolded e], of py_str]
    read_row_within_limit [OF w] Cons
  show ?case by (simp add: e)
qed

lemmas eval_round_trip =
  eval_table eval_unflatten nth_Cons'

text \<open>
  Claim C1 says that a collection that satisfies the invariants of \<^verbatim>\<open>validate\<close> and
  nests one level only comes back from its table, up to two losses: a boolean false
  cannot be told from an absent key, and a scalar that is not \<^verbatim>\<open>True\<close> comes back as a
  string. Each collection below passes \<^verbatim>\<open>validate\<close> and comes back changed in another
  way: a nested true comes back as the string \<^verbatim>\<open>True\<close>, an empty string comes back as
  no key, the top-level key \<^verbatim>\<open>a/b\<close> comes back as the object \<^verbatim>\<open>a\<close> with the key
  \<^verbatim>\<open>b\<close>, a false comes back as the string \<^verbatim>\<open>False\<close> and not as an absent key, the
  keys of the second entry come back in the order of the columns, and a string of 131073
  characters makes the reader raise \<^verbatim>\<open>csv.Error\<close>.
\<close>

theorem round_trip_changes_collection:
  "validate (JArr [JObj [(''stack'', JObj [(''a'', JBool True)])]]) = Inr ()
   \<and> unflatten (fst (csv_table example_str (JArr [JObj [(''stack'', JObj [(''a'', JBool True)])]])))
       (snd (csv_table example_str (JArr [JObj [(''stack'', JObj [(''a'', JBool True)])]]))) =
     Inr [JObj [(''stack'', JObj [(''a'', JStr ''True'')])]]
   \<and> validate (JArr [JObj [(''stack'', JObj [(''ip'', JStr ''x'')]), (''name'', JStr [])]]) = Inr ()
   \<and> unflatten
       (fst (csv_table example_str
          (JArr [JObj [(''stack'', JObj [(''ip'', JStr ''x'')]), (''name'', JStr [])]])))
       (snd (csv_table example_str
          (JArr [JObj [(''stack'', JObj [(''ip'', JStr ''x'')]), (''name'', JStr [])]]))) =
     Inr [JObj [(''stack'', JObj [(''ip'', JStr ''x'')])]]
   \<and> validate (JArr [JObj [(''stack'', JObj [(''ip'', JStr ''x'')]), (''a/b'', JStr ''1'')]]) = Inr ()
   \<and> unflatten
       (fst (csv_table example_str
          (JArr [JObj [(''stack'', JObj [(''ip'', JStr ''x'')]), (''a/b'', JStr ''1'')]])))
       (snd (csv_table example_str
          (JArr [JObj [(''stack'', JObj [(''ip'', JStr ''x'')]), (''a/b'', JStr ''1'')]]))) =
     Inr [JObj [(''stack'', JObj [(''ip'', JStr ''x'')]), (''a'', JObj [(''b'', JStr ''1'')])]]
   \<and> validate (JArr [JObj [(''stack'', JObj [(''ip'', JStr ''x'')]), (''on'', JBool False)]]) = Inr ()
   \<and> unflatten
       (fst (csv_table example_str
          (JArr [JObj [(''stack'', JObj [(''ip'', JStr ''x'')]), (''on'', JBool False)]])))
       (snd (csv_table example_str
          (JArr [JObj [(''stack'', JObj [(''ip'', JStr ''x'')]), (''on'', JBool False)]]))) =
     Inr [JObj [(''stack'', JObj [(''ip'', JStr ''x'')]), (''on'', JStr ''False'')]]
   \<and> validate (JArr [JObj [(''stack'', JObj [(''ip'', JStr ''x'')]), (''a'', JStr ''1''), (''b'', JStr ''2'')],
                     JObj [(''stack'', JObj [(''ip'', JStr ''y'')]), (''b'', JStr ''2''), (''a'', JStr ''1'')]]) = Inr ()
   \<and> unflatten
       (fst (csv_table example_str
          (JArr [JObj [(''stack'', JObj [(''ip'', JStr ''x'')]), (''a'', JStr ''1''), (''b'', JStr ''2'')],
                 JObj [(''stack'', JObj [(''ip'', JStr ''y'')]), (''b'', JStr ''2''), (''a'', JStr ''1'')]])))
       (snd (csv_table example_str
          (JArr [JObj [(''stack'', JObj [(''ip'', JStr ''x'')]), (''a'', JStr ''1''), (''b'', JStr ''2'')],
                 JObj [(''stack'', JObj [(''ip'', JStr ''y'')]), (''b'', JStr ''2''), (''a'', JStr ''1'')]]))) =
     Inr [JObj [(''stack'', JObj [(''ip'', JStr ''x'')]), (''a'', JStr ''1''), (''b'', JStr ''2'')],
          JObj [(''stack'', JObj [(''ip'', JStr ''y'')]), (''a'', JStr ''1''), (''b'', JStr ''2'')]]
   \<and> validate (JArr [JObj [(''stack'', JObj [(''ip'', JStr (replicate 131073 CHR ''x''))])]]) = Inr ()
   \<and> csv_table example_str
       (JArr [JObj [(''stack'', JObj [(''ip'', JStr (replicate 131073 CHR ''x''))])]]) =
     ([''stack/ip''], [[replicate 131073 CHR ''x'']])
   \<and> import_rows [[''stack/ip''], [replicate 131073 CHR ''x'']] = Inl CsvError"
proof -
  have 1: "validate (JArr [JObj [(''stack'', JObj [(''a'', JBool True)])]]) = Inr ()"
    by (simp add: eval_validate)
  have 2: "unflatten (fst (csv_table example_str (JArr [JObj [(''stack'', JObj [(''a'', JBool True)])]])))
       (snd (csv_table example_str (JArr [JObj [(''stack'', JObj [(''a'', JBool True)])]]))) =
     Inr [JObj [(''stack'', JObj [(''a'', JStr ''True'')])]]"
    by (simp add: eval_round_trip)
  have 3: "validate (JArr [JObj [(''stack'', JObj [(''ip'', JStr ''x'')]), (''name'', JStr [])]]) = Inr ()"
    by (simp add: eval_validate)
  have 4: "unflatten
       (fst (csv_table example_str
          (JArr [JObj [(''stack'', JObj [(''ip'', JStr ''x'')]), (''name'', JStr [])]])))
       (snd (csv_table example_str
          (JArr [JObj [(''stack'', JObj [(''ip'', JStr ''x'')]), (''name'', JStr [])]]))) =
     Inr [JObj [(''stack'', JObj [(''ip'', JStr ''x'')])]]"
    by (simp add: eval_round_trip)
  have 5: "validate (JArr [JObj [(''stack'', JObj [(''ip'', JStr ''x'')]), (''a/b'', JStr ''1'')]]) = Inr ()"
    by (simp add: eval_validate)
  have 6: "unflatten
       (fst (csv_table example_str
          (JArr [JObj [(''stack'', JObj [(''ip'', JStr ''x'')]), (''a/b'', JStr ''1'')]])))
       (snd (csv_table example_str
          (JArr [JObj [(''stack'', JObj [(''ip'', JStr ''x'')]), (''a/b'', JStr ''1'')]]))) =
     Inr [JObj [(''stack'', JObj [(''ip'', JStr ''x'')]), (''a'', JObj [(''b'', JStr ''1'')])]]"
    by (simp add: eval_round_trip)
  have 7: "validate (JArr [JObj [(''stack'', JObj [(''ip'', JStr ''x'')]), (''on'', JBool False)]]) = Inr ()"
    by (simp add: eval_validate)
  have 8: "unflatten
       (fst (csv_table example_str
          (JArr [JObj [(''stack'', JObj [(''ip'', JStr ''x'')]), (''on'', JBool False)]])))
       (snd (csv_table example_str
          (JArr [JObj [(''stack'', JObj [(''ip'', JStr ''x'')]), (''on'', JBool False)]]))) =
     Inr [JObj [(''stack'', JObj [(''ip'', JStr ''x'')]), (''on'', JStr ''False'')]]"
    by (simp add: eval_round_trip)
  have 9: "validate (JArr [JObj [(''stack'', JObj [(''ip'', JStr ''x'')]), (''a'', JStr ''1''), (''b'', JStr ''2'')],
                     JObj [(''stack'', JObj [(''ip'', JStr ''y'')]), (''b'', JStr ''2''), (''a'', JStr ''1'')]]) = Inr ()"
    by (simp add: eval_validate)
  have 10: "unflatten
       (fst (csv_table example_str
          (JArr [JObj [(''stack'', JObj [(''ip'', JStr ''x'')]), (''a'', JStr ''1''), (''b'', JStr ''2'')],
                 JObj [(''stack'', JObj [(''ip'', JStr ''y'')]), (''b'', JStr ''2''), (''a'', JStr ''1'')]])))
       (snd (csv_table example_str
          (JArr [JObj [(''stack'', JObj [(''ip'', JStr ''x'')]), (''a'', JStr ''1''), (''b'', JStr ''2'')],
                 JObj [(''stack'', JObj [(''ip'', JStr ''y'')]), (''b'', JStr ''2''), (''a'', JStr ''1'')]]))) =
     Inr [JObj [(''stack'', JObj [(''ip'', JStr ''x'')]), (''a'', JStr ''1''), (''b'', JStr ''2'')],
          JObj [(''stack'', JObj [(''ip'', JStr ''y'')]), (''a'', JStr ''1''), (''b'', JStr ''2'')]]"
    by (simp add: eval_round_trip)
  have 11: "validate (JArr [JObj [(''stack'', JObj [(''ip'', JStr (replicate 131073 CHR ''x''))])]]) =
      Inr ()"
    by (simp add: eval_validate)
  have 12: "csv_table example_str
       (JArr [JObj [(''stack'', JObj [(''ip'', JStr (replicate 131073 CHR ''x''))])]]) =
     ([''stack/ip''], [[replicate 131073 CHR ''x'']])"
    by (simp add: eval_table)
  have 13: "import_rows [[''stack/ip''], [replicate 131073 CHR ''x'']] = Inl CsvError"
    by (simp add: read_row_def field_limit_def)
  from 1 2 3 4 5 6 7 8 9 10 11 12 13 show ?thesis by blast
qed

text \<open>
  Claim C1 as the code has it: a collection comes back from its table as it went in when
  every scalar of every entry is the boolean true or a string that is neither empty nor
  \<^verbatim>\<open>True\<close>, under a key that does not hold exactly one \<^verbatim>\<open>/\<close>; every nested object is
  not empty, holds no \<^verbatim>\<open>/\<close> in its key and in its own keys and has strings that are
  not empty as values; the order of the columns agrees with every entry (the top-level
  keys of the entry's columns, each where it is first seen, are the keys of the entry in
  their order, and the columns of every nested object list its keys in their order); and
  no column name and no field is longer than the field limit of the reader.
\<close>

theorem csv_round_trip:
  assumes "csv_table py_str (JArr data) = (columns, rows)"
    and "list_all lossless_entry data"
    and "list_all (in_column_order columns) data"
    and "list_all within_limit (columns # rows)"
  shows "import_rows (columns # rows) = Inr data"
proof -
  from assms(1) have c: "columns = fromkeys (concat (map (map fst \<circ> flatten) data))"
    and r: "rows = map (\<lambda>e. csv_row py_str columns (flatten e)) data"
    unfolding csv_table_eq by blast+
  from c have dc: "distinct columns" by (simp add: distinct_fromkeys)
  from assms(4) r have "list_all (\<lambda>e. within_limit (csv_row py_str columns (flatten e))) data"
    by (simp add: list_all_iff)
  from unflatten_rows [OF dc assms(2,3) this] r
  have "unflatten columns rows = Inr data" by simp
  moreover from assms(4) have "read_row columns = Inr columns"
    by (simp add: read_row_within_limit)
  ultimately show ?thesis by simp
qed


theorem csv_round_trip_witness:
  "validate (JArr [JObj [(''stack'', JObj [(''ip'', JStr ''x'')]), (''name'', JStr ''n''),
                         (''a/b/c'', JBool True)],
                   JObj [(''stack'', JObj [(''ip'', JStr ''y''), (''gw'', JStr ''g'')]),
                         (''name'', JStr ''m'')]]) = Inr ()
   \<and> csv_table example_str
       (JArr [JObj [(''stack'', JObj [(''ip'', JStr ''x'')]), (''name'', JStr ''n''),
                    (''a/b/c'', JBool True)],
              JObj [(''stack'', JObj [(''ip'', JStr ''y''), (''gw'', JStr ''g'')]),
                    (''name'', JStr ''m'')]]) =
     ([''stack/ip'', ''name'', ''a/b/c'', ''stack/gw''],
      [[''x'', ''n'', ''True'', []], [''y'', ''m'', [], ''g'']])
   \<and> import_rows [[''stack/ip'', ''name'', ''a/b/c'', ''stack/gw''],
                  [''x'', ''n'', ''True'', []], [''y'', ''m'', [], ''g'']] =
     Inr [JObj [(''stack'', JObj [(''ip'', JStr ''x'')]), (''name'', JStr ''n''),
                (''a/b/c'', JBool True)],
          JObj [(''stack'', JObj [(''ip'', JStr ''y''), (''gw'', JStr ''g'')]),
                (''name'', JStr ''m'')]]"
proof -
  let ?data = "[JObj [(''stack'', JObj [(''ip'', JStr ''x'')]), (''name'', JStr ''n''),
                    (''a/b/c'', JBool True)],
              JObj [(''stack'', JObj [(''ip'', JStr ''y''), (''gw'', JStr ''g'')]),
                    (''name'', JStr ''m'')]]"
  let ?columns = "[''stack/ip'', ''name'', ''a/b/c'', ''stack/gw'']"
  let ?rows = "[[''x'', ''n'', ''True'', []], [''y'', ''m'', [], ''g'']]"
  have v: "validate (JArr ?data) = Inr ()"
    by (simp add: eval_validate)
  have t: "csv_table example_str (JArr ?data) = (?columns, ?rows)"
    by (simp add: eval_table)
  have l: "list_all lossless_entry ?data"
    by simp
  have o: "list_all (in_column_order ?columns) ?data"
    by (simp add: top_key_def fromkeys_def nth_Cons')
  have w: "list_all within_limit (?columns # ?rows)"
    by (simp add: within_limit_def field_limit_def)
  from csv_round_trip [OF t l o w] v t show ?thesis by simp
qed


end
